theory Spec2Isabelle
  imports Main "HOL-Library.Word" "HOL-Library.Extended_Nat"
begin

unbundle bit_operations_syntax

section \<open>The TCP store daemon of torch/lib/c10d/TCPStore.cpp\<close>

text \<open>
  The daemon is a single-threaded event loop: every handler runs to completion before the
  next socket is served, so the embedding is a pure state-passing model. A handler takes
  the socket it serves, the arguments it has read from that socket, what the environment
  lets it write, and the daemon's state; it returns the state it leaves, the values it has
  written to sockets, in the order of the writes, and the exception it raises, if any. A
  handler that raises leaves the members as they are at that moment; nothing is rolled
  back.

  What the embedding leaves to the environment: the bytes of a request are presented
  already decoded (type \<open>request\<close>), with one constructor for a read that fails and one
  for an opcode outside the enumeration; whether a write to a socket succeeds or raises is
  decided by the number of writes the socket still accepts (type \<open>io\<close>). The POSIX
  branch of the platform conditionals is the one modelled.

  Names are those of the source; the members of the daemon lose their trailing
  underscore (\<open>tcpStore_\<close> is \<open>tcpStore\<close>), which Isabelle does not admit in a name.
  \<open>int64_t\<close> is a 64-bit word read as two's complement, so the addition of
  \<open>addHandler\<close> wraps around where the C++ addition overflows; the properties of ADD
  are stated where it does not. The counters \<open>numKeysToAwait\<close> and
  \<open>keysAwaited_[socket]\<close> are unbounded integers.
\<close>

subsection \<open>Wire values\<close>

type_synonym byte = "8 word"
type_synonym int64 = "64 word"
type_synonym socket = int

datatype CheckResponseType = READY | NOT_READY

datatype WaitResponseType = STOP_WAITING

datatype WatchResponseType = KEY_UPDATED

text \<open>One value written by \<open>tcputil::sendValue\<close>, \<open>sendString\<close> or \<open>sendVector\<close>.\<close>

datatype wire =
    CheckResponse CheckResponseType
  | WaitResponse WaitResponseType
  | WatchResponse WatchResponseType
  | WInt64 int64
  | WString string
  | WVector "byte list"

datatype event = Send socket wire | Close socket

text \<open>
  A request as \<open>query\<close> and the handlers read it from the socket: the opcode of
  \<open>QueryType\<close> followed by its arguments. \<open>BAD_QUERY_TYPE\<close> is an opcode byte that is
  none of the nine enumerators, \<open>RECV_FAILED\<close> a read that raises (the peer has closed
  the connection, or sent less than the frame needs).
\<close>

datatype request =
    SET string "byte list"
  | COMPARE_SET string "byte list" "byte list"
  | GET string
  | ADD string int64
  | CHECK "string list"
  | WAIT "string list"
  | GETNUMKEYS
  | WATCH_KEY string
  | DELETE_KEY string
  | BAD_QUERY_TYPE
  | RECV_FAILED

datatype error =
    runtime_error
  | system_error
  | out_of_range
  | invalid_argument

subsection \<open>Decimal conversion: \<open>std::stoll\<close> and \<open>std::to_string\<close>\<close>

definition isspace :: "byte \<Rightarrow> bool" where
  "isspace c = (c = 32 \<or> (9 \<le> c \<and> c \<le> 13))"

definition isdigit :: "byte \<Rightarrow> bool" where
  "isdigit c = (48 \<le> c \<and> c \<le> 57)"

definition digit_val :: "byte \<Rightarrow> nat" where
  "digit_val c = unat c - 48"

definition digits_val :: "byte list \<Rightarrow> nat" where
  "digits_val ds = foldl (\<lambda>a c. 10 * a + digit_val c) 0 ds"

text \<open>
  \<open>std::stoll(str)\<close> in base 10, as \<open>strtoll\<close> computes it: leading white space is
  skipped, one sign is accepted, then the longest run of decimal digits is converted and
  whatever follows it is ignored. No digit at all raises \<open>std::invalid_argument\<close>; a
  value outside the range of \<open>long long\<close> raises \<open>std::out_of_range\<close>.
\<close>

definition stoll :: "byte list \<Rightarrow> error + int64" where
  "stoll str =
     (let s = dropWhile isspace str;
          neg = (s \<noteq> [] \<and> hd s = 45);
          r = (if s \<noteq> [] \<and> (hd s = 45 \<or> hd s = 43) then tl s else s);
          ds = takeWhile isdigit r
      in if ds = [] then Inl invalid_argument
         else let v = (if neg then - int (digits_val ds) else int (digits_val ds))
              in if v < - (2 ^ 63) \<or> 2 ^ 63 - 1 < v then Inl out_of_range
                 else Inr (word_of_int v))"

fun digits :: "nat \<Rightarrow> byte list" where
  "digits n = (if n < 10 then [48 + of_nat n] else digits (n div 10) @ [48 + of_nat (n mod 10)])"

declare digits.simps [simp del]

text \<open>
  The decimal representation of an integer, and \<open>std::to_string\<close> of a \<open>long long\<close>
  as the bytes of the resulting string.
\<close>

definition decimal :: "int \<Rightarrow> byte list" where
  "decimal i = (if i < 0 then 45 # digits (nat (- i)) else digits (nat i))"

definition to_string :: "int64 \<Rightarrow> byte list" where
  "to_string v = decimal (sint v)"

subsection \<open>The daemon's state\<close>

text \<open>
  Modelled from the spec: the member declarations of \<open>TCPStoreDaemon\<close> are in
  TCPStore.hpp, which is not among the sources. The store map takes keys to byte vectors,
  the wait overlay is a map from keys to the ordered list of waiting sockets together with
  a map from sockets to their remaining-count, the watch overlay a map from keys to the
  ordered list of subscribed sockets. The remaining-count is an unbounded integer here;
  \<open>--keysAwaited_[socket]\<close> is subtraction of one from it.
\<close>

record daemon =
  tcpStore :: "string \<rightharpoonup> byte list"
  waitingSockets :: "string \<rightharpoonup> socket list"
  keysAwaited :: "socket \<rightharpoonup> int"
  watchedSockets :: "string \<rightharpoonup> socket list"
  sockets :: "socket list"

definition init_daemon :: daemon where
  "init_daemon = \<lparr>tcpStore = Map.empty, waitingSockets = Map.empty,
     keysAwaited = Map.empty, watchedSockets = Map.empty, sockets = []\<rparr>"

text \<open>
  \<open>m[key]\<close> on a map of vectors or counters: the entry if there is one, else the
  value-initialised entry that \<open>operator[]\<close> inserts.
\<close>

definition bucket :: "('k \<rightharpoonup> 'a list) \<Rightarrow> 'k \<Rightarrow> 'a list" where
  "bucket m k = (case m k of None \<Rightarrow> [] | Some v \<Rightarrow> v)"

definition awaited :: "(socket \<rightharpoonup> int) \<Rightarrow> socket \<Rightarrow> int" where
  "awaited m s = (case m s of None \<Rightarrow> 0 | Some n \<Rightarrow> n)"

subsection \<open>Writes and exceptions\<close>

text \<open>
  Every write of the daemon goes through \<open>tcputil::sendBytes\<close>, which raises
  \<open>std::system_error\<close> when the socket does not take the bytes (the peer has reset the
  connection, say). For every socket the environment holds the number of writes it
  still accepts, \<open>\<infinity>\<close> for a socket that never fails; a write to a socket whose number
  is 0 raises. \<open>reliable\<close> is the environment in which no write raises.
\<close>

type_synonym io = "socket \<Rightarrow> enat"

definition reliable :: io where
  "reliable = (\<lambda>t. \<infinity>)"

text \<open>
  How a call ends: the state it leaves, the values it has written, what the sockets
  still accept, and the exception that has left the call, if any.
\<close>

record outcome =
  state :: daemon
  written :: "event list"
  budget :: io
  raised :: "error option"

text \<open>A call that returns at once, and a \<open>throw\<close>.\<close>

definition ok :: "io \<Rightarrow> daemon \<Rightarrow> outcome" where
  "ok io st = \<lparr>state = st, written = [], budget = io, raised = None\<rparr>"

definition throw :: "error \<Rightarrow> io \<Rightarrow> daemon \<Rightarrow> outcome" where
  "throw e io st = \<lparr>state = st, written = [], budget = io, raised = Some e\<rparr>"

text \<open>One call of \<open>tcputil::sendValue\<close>, \<open>sendString\<close> or \<open>sendVector\<close>.\<close>

definition send :: "socket \<Rightarrow> wire \<Rightarrow> io \<Rightarrow> daemon \<Rightarrow> outcome" where
  "send t w io st =
     (if io t = 0 then throw system_error io st
      else \<lparr>state = st, written = [Send t w], budget = io(t := io t - 1), raised = None\<rparr>)"

text \<open>
  Sequencing, \<open>a; b\<close> in the source: \<open>b\<close> runs from where \<open>a\<close> has ended, unless
  \<open>a\<close> has raised.
\<close>

definition and_then :: "outcome \<Rightarrow> (io \<Rightarrow> daemon \<Rightarrow> outcome) \<Rightarrow> outcome" where
  "and_then r f =
     (case raised r of
        Some e \<Rightarrow> r
      | None \<Rightarrow> (let q = f (budget r) (state r) in q\<lparr>written := written r @ written q\<rparr>))"

subsection \<open>Handlers\<close>

text \<open>
  The loop of \<open>wakeupWaitingClients\<close> over the sockets waiting for the key:
  \<open>--keysAwaited_[socket]\<close>, then STOP_WAITING is written if the count is now 0. A write
  that raises leaves the loop with the counts decremented so far.
\<close>

fun wakeup_loop :: "socket list \<Rightarrow> io \<Rightarrow> daemon \<Rightarrow> outcome" where
  "wakeup_loop [] io st = ok io st"
| "wakeup_loop (s # ss) io st =
     (let n = awaited (keysAwaited st) s - 1;
          st1 = st\<lparr>keysAwaited := (keysAwaited st)(s \<mapsto> n)\<rparr>
      in and_then (if n = 0 then send s (WaitResponse STOP_WAITING) io st1 else ok io st1)
           (wakeup_loop ss))"

text \<open>
  \<open>waitingSockets_.erase(socketsToWait)\<close> comes after the loop, so it is skipped when the
  loop raises.
\<close>

definition wakeupWaitingClients :: "string \<Rightarrow> io \<Rightarrow> daemon \<Rightarrow> outcome" where
  "wakeupWaitingClients key io st =
     (case waitingSockets st key of
        None \<Rightarrow> ok io st
      | Some socketsToWait \<Rightarrow>
          and_then (wakeup_loop socketsToWait io st)
            (\<lambda>io1 st1. ok io1 (st1\<lparr>waitingSockets := (waitingSockets st1)(key := None)\<rparr>)))"

text \<open>The four writes that make one KEY_UPDATED frame.\<close>

definition keyUpdate :: "string \<Rightarrow> byte list \<Rightarrow> byte list \<Rightarrow> socket \<Rightarrow> io \<Rightarrow> daemon \<Rightarrow> outcome" where
  "keyUpdate key oldData newData s io st =
     and_then
       (and_then
          (and_then (send s (WatchResponse KEY_UPDATED) io st) (send s (WString key)))
          (send s (WVector oldData)))
       (send s (WVector newData))"

text \<open>The loop of \<open>sendKeyUpdatesToClients\<close> over the sockets watching the key.\<close>

fun notify_loop :: "string \<Rightarrow> byte list \<Rightarrow> byte list \<Rightarrow> socket list \<Rightarrow> io \<Rightarrow> daemon \<Rightarrow> outcome" where
  "notify_loop key oldData newData [] io st = ok io st"
| "notify_loop key oldData newData (s # ss) io st =
     and_then (keyUpdate key oldData newData s io st) (notify_loop key oldData newData ss)"

text \<open>
  \<open>watchedSockets_[key]\<close> inserts an empty vector for a key that has none, before the
  first write of the loop.
\<close>

definition sendKeyUpdatesToClients ::
  "string \<Rightarrow> byte list \<Rightarrow> byte list \<Rightarrow> io \<Rightarrow> daemon \<Rightarrow> outcome" where
  "sendKeyUpdatesToClients key oldData newData io st =
     (let ws = bucket (watchedSockets st) key
      in notify_loop key oldData newData ws io
           (st\<lparr>watchedSockets := (watchedSockets st)(key \<mapsto> ws)\<rparr>))"

definition setHandler :: "socket \<Rightarrow> string \<Rightarrow> byte list \<Rightarrow> io \<Rightarrow> daemon \<Rightarrow> outcome" where
  "setHandler socket key newData io st =
     (let oldData = (case tcpStore st key of None \<Rightarrow> [] | Some v \<Rightarrow> v);
          st1 = st\<lparr>tcpStore := (tcpStore st)(key \<mapsto> newData)\<rparr>
      in and_then (wakeupWaitingClients key io st1)
           (sendKeyUpdatesToClients key oldData newData))"

definition compareSetHandler ::
  "socket \<Rightarrow> string \<Rightarrow> byte list \<Rightarrow> byte list \<Rightarrow> io \<Rightarrow> daemon \<Rightarrow> outcome" where
  "compareSetHandler socket key currentValue newValue io st =
     (case tcpStore st key of
        None \<Rightarrow> send socket (WVector currentValue) io st
      | Some v \<Rightarrow>
          if v = currentValue then
            and_then
              (sendKeyUpdatesToClients key currentValue newValue io
                 (st\<lparr>tcpStore := (tcpStore st)(key \<mapsto> newValue)\<rparr>))
              (send socket (WVector newValue))
          else send socket (WVector v) io st)"

text \<open>
  The part of \<open>addHandler\<close> after the stored value has been read: store the decimal
  string, reply, wake the waiters, notify the watchers.
\<close>

definition addStore ::
  "socket \<Rightarrow> string \<Rightarrow> int64 \<Rightarrow> byte list \<Rightarrow> io \<Rightarrow> daemon \<Rightarrow> outcome" where
  "addStore socket key addVal oldData io st =
     (let newData = to_string addVal;
          st1 = st\<lparr>tcpStore := (tcpStore st)(key \<mapsto> newData)\<rparr>
      in and_then
           (and_then (send socket (WInt64 addVal) io st1) (wakeupWaitingClients key))
           (sendKeyUpdatesToClients key oldData newData))"

definition addHandler :: "socket \<Rightarrow> string \<Rightarrow> int64 \<Rightarrow> io \<Rightarrow> daemon \<Rightarrow> outcome" where
  "addHandler socket key addVal io st =
     (case tcpStore st key of
        None \<Rightarrow> addStore socket key addVal [] io st
      | Some oldData \<Rightarrow>
          (case stoll oldData of
             Inl e \<Rightarrow> throw e io st
           | Inr n \<Rightarrow> addStore socket key (addVal + n) oldData io st))"

definition getHandler :: "socket \<Rightarrow> string \<Rightarrow> io \<Rightarrow> daemon \<Rightarrow> outcome" where
  "getHandler socket key io st =
     (case tcpStore st key of
        None \<Rightarrow> throw out_of_range io st
      | Some data \<Rightarrow> send socket (WVector data) io st)"

definition getNumKeysHandler :: "socket \<Rightarrow> io \<Rightarrow> daemon \<Rightarrow> outcome" where
  "getNumKeysHandler socket io st = send socket (WInt64 (of_nat (card (dom (tcpStore st))))) io st"

text \<open>
  \<open>watchedSockets_.erase(key)\<close> comes after the reply, so it is skipped when the reply
  raises.
\<close>

definition deleteHandler :: "socket \<Rightarrow> string \<Rightarrow> io \<Rightarrow> daemon \<Rightarrow> outcome" where
  "deleteHandler socket key io st =
     (let numDeleted = (if tcpStore st key = None then 0 else 1)
      in and_then (send socket (WInt64 numDeleted) io (st\<lparr>tcpStore := (tcpStore st)(key := None)\<rparr>))
           (\<lambda>io1 st1. ok io1 (st1\<lparr>watchedSockets := (watchedSockets st1)(key := None)\<rparr>)))"

definition checkKeys :: "string list \<Rightarrow> daemon \<Rightarrow> bool" where
  "checkKeys keys st = list_all (\<lambda>s. tcpStore st s \<noteq> None) keys"

definition checkHandler :: "socket \<Rightarrow> string list \<Rightarrow> io \<Rightarrow> daemon \<Rightarrow> outcome" where
  "checkHandler socket keys io st =
     (if checkKeys keys st then send socket (CheckResponse READY) io st
      else send socket (CheckResponse NOT_READY) io st)"

text \<open>
  The registration loop of \<open>waitHandler\<close>: the pair is \<open>waitingSockets_\<close> and
  \<open>numKeysToAwait\<close>.
\<close>

fun wait_loop ::
  "socket \<Rightarrow> (string \<rightharpoonup> byte list) \<Rightarrow> string list \<Rightarrow> (string \<rightharpoonup> socket list) \<times> int \<Rightarrow>
   (string \<rightharpoonup> socket list) \<times> int" where
  "wait_loop socket store [] acc = acc"
| "wait_loop socket store (key # keys) acc =
     wait_loop socket store keys
       (if store key = None
        then ((fst acc)(key \<mapsto> bucket (fst acc) key @ [socket]), snd acc + 1)
        else acc)"

definition waitHandler :: "socket \<Rightarrow> string list \<Rightarrow> io \<Rightarrow> daemon \<Rightarrow> outcome" where
  "waitHandler socket keys io st =
     (if checkKeys keys st then send socket (WaitResponse STOP_WAITING) io st
      else (let r = wait_loop socket (tcpStore st) keys (waitingSockets st, 0)
            in ok io (st\<lparr>waitingSockets := fst r,
                         keysAwaited := (keysAwaited st)(socket \<mapsto> snd r)\<rparr>)))"

definition watchHandler :: "socket \<Rightarrow> string \<Rightarrow> io \<Rightarrow> daemon \<Rightarrow> outcome" where
  "watchHandler socket key io st =
     ok io (st\<lparr>watchedSockets :=
                 (watchedSockets st)(key \<mapsto> bucket (watchedSockets st) key @ [socket])\<rparr>)"

fun query :: "socket \<Rightarrow> request \<Rightarrow> io \<Rightarrow> daemon \<Rightarrow> outcome" where
  "query socket (SET key newData) io st = setHandler socket key newData io st"
| "query socket (COMPARE_SET key currentValue newValue) io st =
     compareSetHandler socket key currentValue newValue io st"
| "query socket (ADD key addVal) io st = addHandler socket key addVal io st"
| "query socket (GET key) io st = getHandler socket key io st"
| "query socket (CHECK keys) io st = checkHandler socket keys io st"
| "query socket (WAIT keys) io st = waitHandler socket keys io st"
| "query socket GETNUMKEYS io st = getNumKeysHandler socket io st"
| "query socket (DELETE_KEY key) io st = deleteHandler socket key io st"
| "query socket (WATCH_KEY key) io st = watchHandler socket key io st"
| "query socket BAD_QUERY_TYPE io st = throw runtime_error io st"
| "query socket RECV_FAILED io st = throw system_error io st"

subsection \<open>Dispatch: \<open>queryFds\<close>\<close>

text \<open>
  A \<open>struct pollfd\<close>. The event masks are those of the Linux \<open>poll.h\<close>.
\<close>

record pollfd =
  fd :: int
  events :: "16 word"
  revents :: "16 word"

definition POLLIN :: "16 word" where
  "POLLIN = 1"

definition POLLHUP :: "16 word" where
  "POLLHUP = 16"

text \<open>
  Modelled from the spec: \<open>CONNECT_SOCKET_OFFSET\<close> is declared in TCPStore.hpp, which is
  not among the sources. On POSIX the poll set starts with the listening socket and the
  read end of the control pipe, as the comment in \<open>queryFds\<close> says, so the accepted
  sockets start at index 2.
\<close>

definition CONNECT_SOCKET_OFFSET :: nat where
  "CONNECT_SOCKET_OFFSET = 2"

text \<open>\<open>v.erase(v.begin() + i)\<close>.\<close>

definition erase_at :: "nat \<Rightarrow> 'a list \<Rightarrow> 'a list" where
  "erase_at i xs = take i xs @ drop (Suc i) xs"

text \<open>
  One of the first two loops of the catch block of \<open>queryFds\<close>: every occurrence of the
  closed descriptor is erased from every vector of the map, and every vector that is
  empty afterwards is erased from the map.
\<close>

definition removeSocket :: "socket \<Rightarrow> (string \<rightharpoonup> socket list) \<Rightarrow> (string \<rightharpoonup> socket list)" where
  "removeSocket s m =
     (\<lambda>k. case m k of
             None \<Rightarrow> None
           | Some v \<Rightarrow> (let v' = filter (\<lambda>x. x \<noteq> s) v in if v' = [] then None else Some v'))"

text \<open>
  The catch block's three loops ("Remove all the tracking state of the close FD"); the
  spec calls it scrubbing.
\<close>

definition scrub :: "socket \<Rightarrow> daemon \<Rightarrow> daemon" where
  "scrub s st =
     st\<lparr>waitingSockets := removeSocket s (waitingSockets st),
        watchedSockets := removeSocket s (watchedSockets st),
        keysAwaited := (keysAwaited st)(s := None)\<rparr>"

text \<open>
  The loop of \<open>queryFds\<close> from index \<open>fdIdx\<close> on. For a descriptor, \<open>rq\<close> gives the
  request that the next read on it decodes to, and \<open>wr\<close> what the sockets accept while
  that request is handled. The catch block works on the state the handler has left. The
  result is the poll set, the state and the events written.
\<close>

function queryFds_from ::
  "(socket \<Rightarrow> request) \<Rightarrow> (socket \<Rightarrow> io) \<Rightarrow> nat \<Rightarrow> pollfd list \<Rightarrow> daemon \<Rightarrow>
   pollfd list \<times> daemon \<times> event list" where
  "queryFds_from rq wr fdIdx fds st =
     (if fdIdx < length fds then
        (if revents (fds ! fdIdx) = 0 then queryFds_from rq wr (fdIdx + 1) fds st
         else
           (let r = query (fd (fds ! fdIdx)) (rq (fd (fds ! fdIdx))) (wr (fd (fds ! fdIdx))) st
            in case raised r of
                 None \<Rightarrow>
                   (let q = queryFds_from rq wr (fdIdx + 1) fds (state r)
                    in (fst q, fst (snd q), written r @ snd (snd q)))
               | Some e \<Rightarrow>
                   (let st' = (scrub (fd (fds ! fdIdx)) (state r))
                                \<lparr>sockets := erase_at (fdIdx - CONNECT_SOCKET_OFFSET) (sockets (state r))\<rparr>;
                        q = queryFds_from rq wr fdIdx (erase_at fdIdx fds) st'
                    in (fst q, fst (snd q),
                        written r @ Close (fd (fds ! fdIdx)) # snd (snd q)))))
      else (fds, st, []))"
  by pat_completeness auto
termination
  by (relation "measure (\<lambda>(rq, wr, fdIdx, fds, st). length fds - fdIdx)")
     (auto simp: erase_at_def)

declare queryFds_from.simps [simp del]

definition queryFds ::
  "(socket \<Rightarrow> request) \<Rightarrow> (socket \<Rightarrow> io) \<Rightarrow> pollfd list \<Rightarrow> daemon \<Rightarrow>
   pollfd list \<times> daemon \<times> event list" where
  "queryFds rq wr fds st = queryFds_from rq wr CONNECT_SOCKET_OFFSET fds st"

text \<open>
  What one turn of that loop does for a ready socket, without the bookkeeping of the poll
  set: the request is handled, and if the handler raises the socket is closed and
  scrubbed. \<open>serve_all\<close> serves a sequence of requests in the order the daemon handles
  them; each comes with its socket and with what the sockets accept while it is handled.
\<close>

definition serve :: "socket \<Rightarrow> request \<Rightarrow> io \<Rightarrow> daemon \<Rightarrow> daemon \<times> event list" where
  "serve s req io st =
     (let r = query s req io st
      in case raised r of
           None \<Rightarrow> (state r, written r)
         | Some e \<Rightarrow> (scrub s (state r), written r @ [Close s]))"

fun serve_all :: "daemon \<Rightarrow> (socket \<times> request \<times> io) list \<Rightarrow> daemon \<times> event list" where
  "serve_all st [] = (st, [])"
| "serve_all st (sr # srs) =
     (let r = serve (fst sr) (fst (snd sr)) (snd (snd sr)) st;
          q = serve_all (fst r) srs
      in (fst q, snd r @ snd q))"

subsection \<open>The client's side of a request\<close>





fun int64_replies :: "event list \<Rightarrow> (socket \<times> int64) list" where
  "int64_replies [] = []"
| "int64_replies (Send t (WInt64 n) # es) = (t, n) # int64_replies es"
| "int64_replies (e # es) = int64_replies es"

subsection \<open>Notions for the properties of the writes\<close>

text \<open>
  \<open>sends\<close> performs a list of writes in order, as far as the environment lets it;
  \<open>sent\<close> is the part of such a list that is written before the first write that
  raises, and \<open>as_events\<close> the events of that part. \<open>frame\<close> lists the four writes
  of one KEY_UPDATED notification to a socket, \<open>frames\<close> those of one notification to
  each socket of a list, in the order of the list.
\<close>

fun sends :: "(socket \<times> wire) list \<Rightarrow> io \<Rightarrow> daemon \<Rightarrow> outcome" where
  "sends [] io st = ok io st"
| "sends (tw # tws) io st = and_then (send (fst tw) (snd tw) io st) (sends tws)"

fun sent :: "io \<Rightarrow> (socket \<times> wire) list \<Rightarrow> (socket \<times> wire) list" where
  "sent io [] = []"
| "sent io (tw # tws) =
     (if io (fst tw) = 0 then [] else tw # sent (io(fst tw := io (fst tw) - 1)) tws)"

definition as_events :: "(socket \<times> wire) list \<Rightarrow> event list" where
  "as_events tws = map (\<lambda>tw. Send (fst tw) (snd tw)) tws"

definition frame :: "string \<Rightarrow> byte list \<Rightarrow> byte list \<Rightarrow> socket \<Rightarrow> (socket \<times> wire) list" where
  "frame key oldData newData s =
     [(s, WatchResponse KEY_UPDATED), (s, WString key), (s, WVector oldData), (s, WVector newData)]"

definition frames :: "string \<Rightarrow> byte list \<Rightarrow> byte list \<Rightarrow> socket list \<Rightarrow> (socket \<times> wire) list" where
  "frames key oldData newData ws = concat (map (frame key oldData newData) ws)"

subsection \<open>Notions for the properties of ADD\<close>

text \<open>
  The range of \<open>int64_t\<close>, the running totals of a sequence of deltas counted from a
  start value, and the integer a key stands for in an ADD (0 if the key is absent).
\<close>

definition in_int64 :: "int \<Rightarrow> bool" where
  "in_int64 i = (- (2 ^ 63) \<le> i \<and> i < 2 ^ 63)"

fun running_totals :: "int \<Rightarrow> int list \<Rightarrow> int list" where
  "running_totals a [] = []"
| "running_totals a (d # ds) = (a + d) # running_totals (a + d) ds"

definition holds_total :: "daemon \<Rightarrow> string \<Rightarrow> int \<Rightarrow> bool" where
  "holds_total st k a =
     (case tcpStore st k of None \<Rightarrow> a = 0 | Some v \<Rightarrow> v = decimal a \<and> in_int64 a)"

text \<open>
  An ADD of a sequence, given as its socket, its environment and its running total, whose
  reply the socket accepts.
\<close>

definition reply_taken :: "socket \<times> io \<times> int \<Rightarrow> bool" where
  "reply_taken x = (fst (snd x) (fst x) \<noteq> 0)"

subsection \<open>The event loop: \<open>run\<close>\<close>

text \<open>
  \<open>tcputil::addPollfd\<close> appends an entry for the descriptor with the given event mask.
\<close>

definition addPollfd :: "pollfd list \<Rightarrow> int \<Rightarrow> 16 word \<Rightarrow> pollfd list" where
  "addPollfd fds socket evs = fds @ [\<lparr>fd = socket, events = evs, revents = 0\<rparr>]"

text \<open>
  The \<open>for\<close> loop at the head of the \<open>while\<close> body sets \<open>revents\<close> to 0 in the first
  \<open>sockets_.size()\<close> entries of the poll set.
\<close>

fun clear_revents :: "nat \<Rightarrow> pollfd list \<Rightarrow> pollfd list" where
  "clear_revents 0 fds = fds"
| "clear_revents (Suc n) [] = []"
| "clear_revents (Suc n) (p # fds) = p\<lparr>revents := 0\<rparr> # clear_revents n fds"

text \<open>
  \<open>::poll\<close> returns with \<open>revents\<close> written in every entry; what it reports for a
  descriptor is given by the environment.
\<close>

definition poll :: "(int \<Rightarrow> 16 word) \<Rightarrow> pollfd list \<Rightarrow> pollfd list" where
  "poll ready_events fds = map (\<lambda>p. p\<lparr>revents := ready_events (fd p)\<rparr>) fds"

text \<open>
  What the environment contributes to one iteration: the events \<open>poll\<close> reports for each
  descriptor, the descriptor \<open>tcputil::accept\<close> returns if it is called, the request
  each socket has pending, and what the sockets accept while the request of a socket is
  handled.
\<close>

record poll_input =
  ready :: "int \<Rightarrow> 16 word"
  accepted :: int
  incoming :: "socket \<Rightarrow> request"
  writable :: "socket \<Rightarrow> io"

text \<open>
  The body of the \<open>while\<close> loop of \<open>TCPStoreDaemon::run\<close>. The result is the exception
  that ends the thread, or the flag \<open>finished\<close>, the poll set, the state and the events
  written.
\<close>

definition run_body ::
  "poll_input \<Rightarrow> pollfd list \<Rightarrow> daemon \<Rightarrow> error + bool \<times> pollfd list \<times> daemon \<times> event list" where
  "run_body inp fds st =
     (let fds1 = poll (ready inp) (clear_revents (length (sockets st)) fds)
      in if revents (fds1 ! 0) \<noteq> 0 \<and> revents (fds1 ! 0) XOR POLLIN \<noteq> 0 then Inl system_error
         else
           (let a = (if revents (fds1 ! 0) \<noteq> 0
                     then (addPollfd fds1 (accepted inp) POLLIN,
                           st\<lparr>sockets := sockets st @ [accepted inp]\<rparr>)
                     else (fds1, st))
            in if revents (fst a ! 1) \<noteq> 0 then
                 (if revents (fst a ! 1) XOR POLLHUP \<noteq> 0 then Inl system_error
                  else Inr (True, fst a, snd a, []))
               else (let q = queryFds (incoming inp) (writable inp) (fst a) (snd a)
                     in Inr (False, fst q, fst (snd q), snd (snd q)))))"

text \<open>
  The loop, over the sequence of answers of \<open>poll\<close>; when the sequence is used up the
  daemon is blocked in \<open>poll\<close> and \<open>finished\<close> is still false.
\<close>

fun run_from ::
  "poll_input list \<Rightarrow> pollfd list \<Rightarrow> daemon \<Rightarrow> error + bool \<times> daemon \<times> event list" where
  "run_from [] fds st = Inr (False, st, [])"
| "run_from (inp # inps) fds st =
     (case run_body inp fds st of
        Inl e \<Rightarrow> Inl e
      | Inr b \<Rightarrow>
          if fst b then Inr (True, fst (snd (snd b)), snd (snd (snd b)))
          else (case run_from inps (fst (snd b)) (fst (snd (snd b))) of
                  Inl e \<Rightarrow> Inl e
                | Inr r \<Rightarrow> Inr (fst r, fst (snd r), snd (snd (snd b)) @ snd (snd r))))"

definition run ::
  "int \<Rightarrow> int \<Rightarrow> poll_input list \<Rightarrow> daemon \<Rightarrow> error + bool \<times> daemon \<times> event list" where
  "run storeListenSocket controlPipeFd0 inps st =
     run_from inps (addPollfd (addPollfd [] storeListenSocket POLLIN) controlPipeFd0 POLLHUP) st"

text \<open>
  The iteration in the order the spec words it: the shutdown signal is checked first,
  then one connection is accepted if the listening socket is ready, then the requests
  are dispatched.
\<close>

definition spec_body ::
  "poll_input \<Rightarrow> pollfd list \<Rightarrow> daemon \<Rightarrow> error + bool \<times> pollfd list \<times> daemon \<times> event list" where
  "spec_body inp fds st =
     (let fds1 = poll (ready inp) (clear_revents (length (sockets st)) fds)
      in if revents (fds1 ! 1) \<noteq> 0 then
           (if revents (fds1 ! 1) XOR POLLHUP \<noteq> 0 then Inl system_error
            else Inr (True, fds1, st, []))
         else if revents (fds1 ! 0) \<noteq> 0 \<and> revents (fds1 ! 0) XOR POLLIN \<noteq> 0 then Inl system_error
         else
           (let a = (if revents (fds1 ! 0) \<noteq> 0
                     then (addPollfd fds1 (accepted inp) POLLIN,
                           st\<lparr>sockets := sockets st @ [accepted inp]\<rparr>)
                     else (fds1, st));
                q = queryFds (incoming inp) (writable inp) (fst a) (snd a)
            in Inr (False, fst q, fst (snd q), snd (snd q))))"

subsection \<open>Notions for the properties of the overlays\<close>

text \<open>The keys of a WAIT request that are absent from the store, in the order of the request.\<close>

definition pending :: "(string \<rightharpoonup> byte list) \<Rightarrow> string list \<Rightarrow> string list" where
  "pending store keys = filter (\<lambda>k. store k = None) keys"

text \<open>
  The socket an event concerns, and the events that concern sockets outside a set.
\<close>

fun target :: "event \<Rightarrow> socket" where
  "target (Send t w) = t"
| "target (Close t) = t"

definition visible :: "socket set \<Rightarrow> event list \<Rightarrow> event list" where
  "visible X ev = filter (\<lambda>e. target e \<notin> X) ev"

text \<open>
  Two states are alike outside a set of sockets when they hold the same store and, with
  the sockets of the set left out, the same waiting lists, watcher lists and
  remaining-counts; an absent list counts as the empty list and an absent count as 0,
  which is how \<open>operator[]\<close> reads them.
\<close>

definition alike :: "socket set \<Rightarrow> daemon \<Rightarrow> daemon \<Rightarrow> bool" where
  "alike X a b \<longleftrightarrow>
     tcpStore a = tcpStore b
     \<and> (\<forall>k. filter (\<lambda>x. x \<notin> X) (bucket (waitingSockets a) k)
            = filter (\<lambda>x. x \<notin> X) (bucket (waitingSockets b) k))
     \<and> (\<forall>k. filter (\<lambda>x. x \<notin> X) (bucket (watchedSockets a) k)
            = filter (\<lambda>x. x \<notin> X) (bucket (watchedSockets b) k))
     \<and> (\<forall>t. t \<notin> X \<longrightarrow> awaited (keysAwaited a) t = awaited (keysAwaited b) t)"

text \<open>A socket that no overlay refers to: it has never registered, or has been scrubbed.\<close>

definition unreferenced :: "socket \<Rightarrow> daemon \<Rightarrow> bool" where
  "unreferenced s st \<longleftrightarrow>
     (\<forall>k. s \<notin> set (bucket (waitingSockets st) k))
     \<and> (\<forall>k. s \<notin> set (bucket (watchedSockets st) k))
     \<and> awaited (keysAwaited st) s = 0"

text \<open>
  Two calls end alike outside a set of sockets when they leave like states, have written
  the same to the sockets outside the set, leave the sockets accepting the same, those
  of the set still accepting every write, and have raised the same or both returned.
\<close>

definition end_alike :: "socket set \<Rightarrow> outcome \<Rightarrow> outcome \<Rightarrow> bool" where
  "end_alike X p q \<longleftrightarrow>
     alike X (state p) (state q) \<and> visible X (written p) = visible X (written q)
     \<and> budget p = budget q \<and> (\<forall>x \<in> X. budget p x = \<infinity>) \<and> raised p = raised q"

subsection \<open>Notions for the property of the wait record\<close>

text \<open>
  The number of entries a socket has in the waiting lists, every entry counted, and the
  number of waiting lists it appears in, which is how the spec counts.
\<close>

definition occurrences :: "socket \<Rightarrow> (string \<rightharpoonup> socket list) \<Rightarrow> nat" where
  "occurrences s m = (\<Sum>k\<in>dom m. count_list (bucket m k) s)"


text \<open>
  The wait record is consistent when every socket's remaining-count (0 if it has none)
  is the number of its entries in the waiting lists.
\<close>

definition wait_invariant :: "daemon \<Rightarrow> bool" where
  "wait_invariant st \<longleftrightarrow>
     finite (dom (waitingSockets st))
     \<and> (\<forall>s. int (occurrences s (waitingSockets st)) = awaited (keysAwaited st) s)"

text \<open>
  The environment in which every socket that has an entry in a waiting list accepts
  every write.
\<close>

definition waiters_writable :: "io \<Rightarrow> daemon \<Rightarrow> bool" where
  "waiters_writable io st \<longleftrightarrow> (\<forall>k t. t \<in> set (bucket (waitingSockets st) k) \<longrightarrow> io t = \<infinity>)"

text \<open>
  The states the daemon reaches by handling requests, with connections coming and going,
  when no socket sends a WAIT while it still has an entry in a waiting list, and no
  write to a socket that has an entry in a waiting list raises. The client's
  \<open>waitHelper_\<close> blocks until the reply, so a client sends a second WAIT on the same
  socket only after a receive timeout.
\<close>

inductive reachable :: "daemon \<Rightarrow> bool" where
  initial: "reachable init_daemon"
| request: "reachable st \<Longrightarrow>
            (\<forall>keys. req = WAIT keys \<longrightarrow> occurrences s (waitingSockets st) = 0) \<Longrightarrow>
            waiters_writable io st \<Longrightarrow>
            reachable (fst (serve s req io st))"
| connection: "reachable st \<Longrightarrow> reachable (st\<lparr>sockets := ss\<rparr>)"

subsection \<open>Notions that tie \<open>serve\<close> to the dispatch loop\<close>

text \<open>
  Two states with the same store and overlays, whatever their socket lists, and two calls
  that end in such states with the same writes, the same left to accept and the same
  exception or none; the requests the loop of \<open>queryFds\<close> finds pending from an index
  on, in the order of the poll set; and a sequence of requests in which no socket sends
  a WAIT while it still has an entry in a waiting list and every write to a socket with
  such an entry succeeds.
\<close>

definition same_overlays :: "daemon \<Rightarrow> daemon \<Rightarrow> bool" where
  "same_overlays a b \<longleftrightarrow>
     tcpStore a = tcpStore b \<and> waitingSockets a = waitingSockets b
     \<and> keysAwaited a = keysAwaited b \<and> watchedSockets a = watchedSockets b"

definition same_end :: "outcome \<Rightarrow> outcome \<Rightarrow> bool" where
  "same_end p q \<longleftrightarrow>
     same_overlays (state p) (state q) \<and> written p = written q
     \<and> budget p = budget q \<and> raised p = raised q"

definition ready_requests ::
  "(socket \<Rightarrow> request) \<Rightarrow> (socket \<Rightarrow> io) \<Rightarrow> nat \<Rightarrow> pollfd list \<Rightarrow> (socket \<times> request \<times> io) list" where
  "ready_requests rq wr i fds =
     map (\<lambda>p. (fd p, rq (fd p), wr (fd p))) (filter (\<lambda>p. revents p \<noteq> 0) (drop i fds))"

fun disciplined :: "daemon \<Rightarrow> (socket \<times> request \<times> io) list \<Rightarrow> bool" where
  "disciplined st [] = True"
| "disciplined st (sr # srs) =
     ((case fst (snd sr) of WAIT keys \<Rightarrow> occurrences (fst sr) (waitingSockets st) = 0 | _ \<Rightarrow> True)
      \<and> waiters_writable (snd (snd sr)) st
      \<and> disciplined (fst (serve (fst sr) (fst (snd sr)) (snd (snd sr)) st)) srs)"

subsection \<open>Notifications as a watcher reads them\<close>

text \<open>
  The values the daemon has written to a socket, in the order of the writes: what the
  peer reads from it.
\<close>

fun received :: "socket \<Rightarrow> event list \<Rightarrow> wire list" where
  "received s [] = []"
| "received s (Send t w # es) = (if t = s then w # received s es else received s es)"
| "received s (Close t # es) = received s es"

text \<open>
  \<open>ListenThread::callbackHandler\<close> reads four values from the listen socket, one after
  the other: the response tag, the key, the old and the new value. It raises
  \<open>std::runtime_error\<close> if the tag is not KEY_UPDATED, and \<open>keyToCallbacks_.at(key)\<close>
  raises \<open>std::out_of_range\<close> if no callback is registered for the key; otherwise the
  callback of the key is called with the old and the new value. The callback table is
  given by the set of its keys, and a call is recorded as the key and the two values.
  The result is the error, or the call and the rest of the stream. A stream that ends
  before the fourth value, or holds a value of another kind in one of the four places,
  is a read that does not deliver the value \<open>callbackHandler\<close> asks for: the read
  blocks or raises, and no callback is called.
\<close>

fun callbackHandler ::
  "string set \<Rightarrow> wire list \<Rightarrow> error + (string \<times> byte list \<times> byte list) \<times> wire list" where
  "callbackHandler keyToCallbacks
     (WatchResponse watchResponse # WString key # WVector currentValue # WVector newValue # ws) =
     (if watchResponse \<noteq> KEY_UPDATED then Inl runtime_error
      else if key \<notin> keyToCallbacks then Inl out_of_range
      else Inr ((key, currentValue, newValue), ws))"
| "callbackHandler keyToCallbacks ws = Inl system_error"

text \<open>
  The loop of \<open>ListenThread::run\<close> over what the listen socket delivers: it calls
  \<open>callbackHandler\<close> as long as there is something to read, and an exception ends the
  thread. The result is the calls made, in order, and the exception that ended the
  thread, if any.
\<close>

function listen ::
  "string set \<Rightarrow> wire list \<Rightarrow> (string \<times> byte list \<times> byte list) list \<times> error option" where
  "listen keyToCallbacks ws =
     (if ws = [] then ([], None)
      else (case callbackHandler keyToCallbacks ws of
              Inl e \<Rightarrow> ([], Some e)
            | Inr r \<Rightarrow>
                (let q = listen keyToCallbacks (snd r) in (fst r # fst q, snd q))))"
  by pat_completeness auto
termination
  by (relation "measure (\<lambda>(keyToCallbacks, ws). length ws)")
     (auto elim!: callbackHandler.elims split: if_splits)

declare listen.simps [simp del]

text \<open>
  What the spec promises, in its words. The store maps keys to values and the watch
  record maps a key to the ordered list of the sockets subscribed to it, a socket once
  for every subscription. SET, a COMPARE_SET whose expected value is the stored one and
  ADD are the mutations of a key; a mutation pushes one notification carrying the key,
  its old value (empty if the key was absent) and its new value to every entry of the
  key's list (\<open>spec_notify\<close>, \<open>spec_pushes\<close>). WATCH_KEY appends the socket to the
  key's list, DELETE_KEY erases the key and drops its list, and no other request touches
  the watch record (\<open>spec_step\<close>). The pushes of a sequence of requests come in the
  order of the requests (\<open>spec_delivery\<close>). \<open>spec_view\<close> is the store and the watch
  record of a state of the daemon.
\<close>

type_synonym spec_store = "(string \<rightharpoonup> byte list) \<times> (string \<Rightarrow> socket list)"

definition spec_notify ::
  "string \<Rightarrow> byte list \<Rightarrow> byte list \<Rightarrow> spec_store \<Rightarrow>
   (socket \<times> string \<times> byte list \<times> byte list) list" where
  "spec_notify k old new sp = map (\<lambda>w. (w, k, old, new)) (snd sp k)"

fun spec_pushes :: "request \<Rightarrow> spec_store \<Rightarrow> (socket \<times> string \<times> byte list \<times> byte list) list" where
  "spec_pushes (SET k v) sp = spec_notify k (case fst sp k of None \<Rightarrow> [] | Some old \<Rightarrow> old) v sp"
| "spec_pushes (COMPARE_SET k e d) sp = (if fst sp k = Some e then spec_notify k e d sp else [])"
| "spec_pushes (ADD k a) sp =
     (case fst sp k of
        None \<Rightarrow> spec_notify k [] (to_string a) sp
      | Some old \<Rightarrow>
          (case stoll old of
             Inl err \<Rightarrow> []
           | Inr n \<Rightarrow> spec_notify k old (to_string (a + n)) sp))"
| "spec_pushes req sp = []"

fun spec_step :: "socket \<Rightarrow> request \<Rightarrow> spec_store \<Rightarrow> spec_store" where
  "spec_step s (SET k v) sp = ((fst sp)(k \<mapsto> v), snd sp)"
| "spec_step s (COMPARE_SET k e d) sp =
     (if fst sp k = Some e then ((fst sp)(k \<mapsto> d), snd sp) else sp)"
| "spec_step s (ADD k a) sp =
     (case fst sp k of
        None \<Rightarrow> ((fst sp)(k \<mapsto> to_string a), snd sp)
      | Some old \<Rightarrow>
          (case stoll old of
             Inl err \<Rightarrow> sp
           | Inr n \<Rightarrow> ((fst sp)(k \<mapsto> to_string (a + n)), snd sp)))"
| "spec_step s (DELETE_KEY k) sp = ((fst sp)(k := None), (snd sp)(k := []))"
| "spec_step s (WATCH_KEY k) sp = (fst sp, (snd sp)(k := snd sp k @ [s]))"
| "spec_step s req sp = sp"

fun spec_delivery ::
  "spec_store \<Rightarrow> (socket \<times> request \<times> io) list \<Rightarrow>
   (socket \<times> string \<times> byte list \<times> byte list) list" where
  "spec_delivery sp [] = []"
| "spec_delivery sp (sr # srs) =
     spec_pushes (fst (snd sr)) sp @ spec_delivery (spec_step (fst sr) (fst (snd sr)) sp) srs"

definition spec_view :: "daemon \<Rightarrow> spec_store" where
  "spec_view st = (tcpStore st, \<lambda>k. bucket (watchedSockets st) k)"

text \<open>
  What a list of notifications puts on the wire of one socket: the four values of each
  notification that is pushed to it, one notification after the other.
\<close>

definition pushed :: "socket \<Rightarrow> (socket \<times> string \<times> byte list \<times> byte list) list \<Rightarrow> wire list" where
  "pushed w ns =
     concat (map (\<lambda>n. map snd (frame (fst (snd n)) (fst (snd (snd n))) (snd (snd (snd n))) w))
               (filter (\<lambda>n. fst n = w) ns))"

text \<open>
  A sequence of requests in which no handler raises, and a socket that is used as a listen
  socket in a sequence of requests: \<open>TCPStore::watchKey\<close> registers the callback under
  the key and then sends WATCH_KEY on the listen socket, and no other method of
  \<open>TCPStore\<close> writes to that socket.
\<close>

fun smooth :: "daemon \<Rightarrow> (socket \<times> request \<times> io) list \<Rightarrow> bool" where
  "smooth st [] = True"
| "smooth st (sr # srs) =
     (raised (query (fst sr) (fst (snd sr)) (snd (snd sr)) st) = None
      \<and> smooth (state (query (fst sr) (fst (snd sr)) (snd (snd sr)) st)) srs)"

definition watch_requests :: "socket \<Rightarrow> string set \<Rightarrow> (socket \<times> request \<times> io) list \<Rightarrow> bool" where
  "watch_requests w keyToCallbacks srs =
     list_all (\<lambda>sr. fst sr = w \<longrightarrow> (\<exists>k \<in> keyToCallbacks. fst (snd sr) = WATCH_KEY k)) srs"

section \<open>Properties\<close>

subsection \<open>Writes, exceptions and sequencing\<close>

lemma ok_fields [simp]:
  "state (ok io st) = st" "written (ok io st) = []" "budget (ok io st) = io"
  "raised (ok io st) = None"
  by (simp_all add: ok_def)

lemma throw_fields [simp]:
  "state (throw e io st) = st" "written (throw e io st) = []" "budget (throw e io st) = io"
  "raised (throw e io st) = Some e"
  by (simp_all add: throw_def)

lemma and_then_ok [simp]: "and_then (ok io st) f = f io st"
  by (simp add: and_then_def ok_def)

lemma and_then_throw [simp]: "and_then (throw e io st) f = throw e io st"
  by (simp add: and_then_def throw_def)

lemma and_then_raised: "raised r = Some e \<Longrightarrow> and_then r f = r"
  by (simp add: and_then_def)

lemma and_then_returned:
  "raised r = None \<Longrightarrow>
   and_then r f = (f (budget r) (state r))\<lparr>written := written r @ written (f (budget r) (state r))\<rparr>"
  by (simp add: and_then_def Let_def)

lemma and_then_assoc:
  "and_then (and_then r f) g = and_then r (\<lambda>io st. and_then (f io st) g)"
  by (cases "raised r"; cases "raised (f (budget r) (state r))")
     (simp_all add: and_then_def Let_def)

lemma state_send [simp]: "state (send t w io st) = st"
  by (simp add: send_def)

lemma send_refused: "io t = 0 \<Longrightarrow> send t w io st = throw system_error io st"
  by (simp add: send_def)

lemma send_taken:
  "io t \<noteq> 0 \<Longrightarrow>
   send t w io st = \<lparr>state = st, written = [Send t w], budget = io(t := io t - 1), raised = None\<rparr>"
  by (simp add: send_def)

lemma send_unlimited:
  "io t = \<infinity> \<Longrightarrow> send t w io st = \<lparr>state = st, written = [Send t w], budget = io, raised = None\<rparr>"
proof -
  assume a: "io t = \<infinity>"
  then have "io(t := io t - 1) = io"
    by (simp add: fun_eq_iff)
  with a show ?thesis by (simp add: send_def)
qed

lemma raised_send: "raised (send t w io st) = (if io t = 0 then Some system_error else None)"
  by (simp add: send_def)

lemma written_send: "written (send t w io st) = (if io t = 0 then [] else [Send t w])"
  by (simp add: send_def)

lemma budget_send: "budget (send t w io st) = (if io t = 0 then io else io(t := io t - 1))"
  by (simp add: send_def)

lemma sends_append: "sends (xs @ ys) io st = and_then (sends xs io st) (sends ys)"
proof (induction xs arbitrary: io st)
  case Nil
  then show ?case by simp
next
  case (Cons x xs)
  have "(\<lambda>io st. sends (xs @ ys) io st) = (\<lambda>io st. and_then (sends xs io st) (sends ys))"
    using Cons.IH by (simp add: fun_eq_iff)
  then show ?case
    by (simp add: and_then_assoc)
qed

lemma sends_fields:
  "state (sends xs io st) = st
   \<and> written (sends xs io st) = as_events (sent io xs)
   \<and> raised (sends xs io st) = (if sent io xs = xs then None else Some system_error)"
proof (induction xs arbitrary: io)
  case Nil
  then show ?case by (simp add: as_events_def)
next
  case (Cons x xs)
  show ?case
  proof (cases "io (fst x) = 0")
    case True
    then show ?thesis by (simp add: send_refused as_events_def)
  next
    case False
    with Cons.IH [of "io(fst x := io (fst x) - 1)"] show ?thesis
      by (simp add: send_taken and_then_returned as_events_def del: fun_upd_apply)
  qed
qed

lemma sent_take: "sent io xs = take (length (sent io xs)) xs"
proof (induction xs arbitrary: io)
  case Nil
  then show ?case by simp
next
  case (Cons x xs)
  from Cons.IH [of "io(fst x := io (fst x) - 1)"] show ?case
    by (simp del: fun_upd_apply)
qed

lemma sent_all: "\<forall>tw \<in> set xs. io (fst tw) = \<infinity> \<Longrightarrow> sent io xs = xs"
proof (induction xs)
  case Nil
  then show ?case by simp
next
  case (Cons x xs)
  then have "io(fst x := io (fst x) - 1) = io"
    by (simp add: fun_eq_iff)
  with Cons show ?case by simp
qed

lemma sends_all:
  "\<forall>tw \<in> set xs. io (fst tw) = \<infinity> \<Longrightarrow>
   sends xs io st = \<lparr>state = st, written = as_events xs, budget = io, raised = None\<rparr>"
proof (induction xs)
  case Nil
  then show ?case by (simp add: as_events_def ok_def)
next
  case (Cons x xs)
  then show ?case
    by (simp add: send_unlimited and_then_returned as_events_def)
qed

lemma and_then_ok_right [simp]: "and_then r ok = r"
  by (cases "raised r") (simp_all add: and_then_def Let_def)

lemma sends_Cons_fun:
  "sends (tw # tws) = (\<lambda>io st. and_then (send (fst tw) (snd tw) io st) (sends tws))"
  by (simp add: fun_eq_iff)

lemma sends_Nil_fun: "sends [] = ok"
  by (simp add: fun_eq_iff)

lemma keyUpdate_sends: "keyUpdate k old new s io st = sends (frame k old new s) io st"
  by (simp add: keyUpdate_def frame_def and_then_assoc sends_Cons_fun sends_Nil_fun)

lemma notify_loop_sends: "notify_loop k old new ws io st = sends (frames k old new ws) io st"
proof (induction ws arbitrary: io st)
  case Nil
  then show ?case by (simp add: frames_def)
next
  case (Cons w ws)
  have "notify_loop k old new ws = sends (frames k old new ws)"
    using Cons.IH by (simp add: fun_eq_iff)
  then show ?case
    by (simp add: keyUpdate_sends frames_def sends_append)
qed

lemma sendKeyUpdates_sends:
  "sendKeyUpdatesToClients k old new io st =
     sends (frames k old new (bucket (watchedSockets st) k)) io
       (st\<lparr>watchedSockets := (watchedSockets st)(k \<mapsto> bucket (watchedSockets st) k)\<rparr>)"
  by (simp add: sendKeyUpdatesToClients_def Let_def notify_loop_sends)

subsection \<open>Evaluating the daemon on concrete requests\<close>

lemmas run_defs = serve_def setHandler_def compareSetHandler_def addHandler_def addStore_def
  getHandler_def getNumKeysHandler_def deleteHandler_def checkHandler_def waitHandler_def
  watchHandler_def wakeupWaitingClients_def sendKeyUpdatesToClients_def keyUpdate_def
  checkKeys_def init_daemon_def bucket_def awaited_def Let_def and_then_def send_def ok_def
  throw_def reliable_def

lemma reliable_unlimited [simp]: "reliable t = \<infinity>"
  by (simp add: reliable_def)

lemma send_single: "sends [tw] = send (fst tw) (snd tw)"
  by (simp add: sends_Cons_fun sends_Nil_fun)

subsection \<open>Compare-and-set\<close>

lemma compareSet_match:
  "tcpStore st k = Some e \<Longrightarrow>
   compareSetHandler s k e d io st =
     sends (frames k e d (bucket (watchedSockets st) k) @ [(s, WVector d)]) io
       (st\<lparr>tcpStore := (tcpStore st)(k \<mapsto> d),
           watchedSockets := (watchedSockets st)(k \<mapsto> bucket (watchedSockets st) k)\<rparr>)"
  by (simp add: compareSetHandler_def sendKeyUpdates_sends sends_append send_single)

text \<open>
  C1, as the spec states it, does not hold when a write to a watcher raises. Socket 3
  sets the key to [1] and socket 5 watches it; then socket 5 stops accepting writes.
  Socket 6 sends COMPARE_SET with the expected value [1] and the desired value [2]: the
  handler stores [2], raises in the first write of the notification to socket 5, and has
  written no reply; the dispatch loop closes socket 6.
\<close>

theorem compareSet_fixed_point_counterexample:
  "tcpStore (fst (serve_all init_daemon
       [(3, SET ''/k'' [1], reliable), (5, WATCH_KEY ''/k'', reliable)])) ''/k'' = Some [1]
   \<and> tcpStore (state (compareSetHandler 6 ''/k'' [1] [2] (reliable(5 := 0))
        (fst (serve_all init_daemon
           [(3, SET ''/k'' [1], reliable), (5, WATCH_KEY ''/k'', reliable)])))) ''/k'' = Some [2]
   \<and> written (compareSetHandler 6 ''/k'' [1] [2] (reliable(5 := 0))
        (fst (serve_all init_daemon
           [(3, SET ''/k'' [1], reliable), (5, WATCH_KEY ''/k'', reliable)]))) = []
   \<and> raised (compareSetHandler 6 ''/k'' [1] [2] (reliable(5 := 0))
        (fst (serve_all init_daemon
           [(3, SET ''/k'' [1], reliable), (5, WATCH_KEY ''/k'', reliable)]))) = Some system_error
   \<and> snd (serve_all init_daemon
        [(3, SET ''/k'' [1], reliable), (5, WATCH_KEY ''/k'', reliable),
         (6, COMPARE_SET ''/k'' [1] [2], reliable(5 := 0))]) = [Close 6]"
  by (simp add: run_defs)

text \<open>
  C1, amended. If the key is absent, \<open>compareSetHandler\<close> is the write of the expected
  value to the caller and changes nothing, so the key is still absent. If the key holds
  a value different from the expected one, it is the write of that value to the caller
  and changes nothing. If the key holds the expected value, the desired value is stored
  under the key and stays stored whatever happens next; the handler then writes one
  notification to every entry of the key's watcher list and after them the desired value
  to the caller, as far as the sockets accept the writes. So the caller is replied the
  desired value if all these writes succeed, which they do when the watchers and the
  caller accept every write; when one of them raises, nothing further is written and the
  dispatch loop closes and scrubs the caller's connection, the desired value staying
  stored.
\<close>

theorem compareSet_fixed_point:
  "(tcpStore st k = None \<longrightarrow>
      compareSetHandler s k e d io st = send s (WVector e) io st
      \<and> state (compareSetHandler s k e d io st) = st
      \<and> (io s \<noteq> 0 \<longrightarrow> written (compareSetHandler s k e d io st) = [Send s (WVector e)]
                       \<and> raised (compareSetHandler s k e d io st) = None))
   \<and> (\<forall>v. tcpStore st k = Some v \<and> v \<noteq> e \<longrightarrow>
      compareSetHandler s k e d io st = send s (WVector v) io st
      \<and> state (compareSetHandler s k e d io st) = st
      \<and> (io s \<noteq> 0 \<longrightarrow> written (compareSetHandler s k e d io st) = [Send s (WVector v)]
                       \<and> raised (compareSetHandler s k e d io st) = None))
   \<and> (tcpStore st k = Some e \<longrightarrow>
      tcpStore (state (compareSetHandler s k e d io st)) = (tcpStore st)(k \<mapsto> d)
      \<and> written (compareSetHandler s k e d io st)
          = as_events (sent io (frames k e d (bucket (watchedSockets st) k) @ [(s, WVector d)]))
      \<and> (raised (compareSetHandler s k e d io st) = None \<longleftrightarrow>
           sent io (frames k e d (bucket (watchedSockets st) k) @ [(s, WVector d)])
             = frames k e d (bucket (watchedSockets st) k) @ [(s, WVector d)])
      \<and> (raised (compareSetHandler s k e d io st) = None \<longrightarrow>
           written (compareSetHandler s k e d io st)
             = as_events (frames k e d (bucket (watchedSockets st) k)) @ [Send s (WVector d)])
      \<and> (io s = \<infinity> \<and> (\<forall>t \<in> set (bucket (watchedSockets st) k). io t = \<infinity>) \<longrightarrow>
           raised (compareSetHandler s k e d io st) = None)
      \<and> (raised (compareSetHandler s k e d io st) \<noteq> None \<longrightarrow>
           serve s (COMPARE_SET k e d) io st
             = (scrub s (state (compareSetHandler s k e d io st)),
                written (compareSetHandler s k e d io st) @ [Close s])
           \<and> tcpStore (fst (serve s (COMPARE_SET k e d) io st)) k = Some d))"
proof (intro conjI impI allI)
  assume "tcpStore st k = None"
  then show "compareSetHandler s k e d io st = send s (WVector e) io st"
    "state (compareSetHandler s k e d io st) = st"
    by (simp_all add: compareSetHandler_def)
next
  assume "tcpStore st k = None" "io s \<noteq> 0"
  then show "written (compareSetHandler s k e d io st) = [Send s (WVector e)]"
    "raised (compareSetHandler s k e d io st) = None"
    by (simp_all add: compareSetHandler_def send_taken)
next
  fix v
  assume "tcpStore st k = Some v \<and> v \<noteq> e"
  then show "compareSetHandler s k e d io st = send s (WVector v) io st"
    "state (compareSetHandler s k e d io st) = st"
    by (simp_all add: compareSetHandler_def)
next
  fix v
  assume "tcpStore st k = Some v \<and> v \<noteq> e" "io s \<noteq> 0"
  then show "written (compareSetHandler s k e d io st) = [Send s (WVector v)]"
    "raised (compareSetHandler s k e d io st) = None"
    by (simp_all add: compareSetHandler_def send_taken)
next
  assume m: "tcpStore st k = Some e"
  let ?xs = "frames k e d (bucket (watchedSockets st) k) @ [(s, WVector d)]"
  note c = compareSet_match [OF m, of s d io]
  note f = sends_fields [of ?xs io]
  show "tcpStore (state (compareSetHandler s k e d io st)) = (tcpStore st)(k \<mapsto> d)"
    by (simp add: c f)
  show w: "written (compareSetHandler s k e d io st) = as_events (sent io ?xs)"
    by (simp add: c f)
  show r: "raised (compareSetHandler s k e d io st) = None \<longleftrightarrow> sent io ?xs = ?xs"
    by (simp add: c f)
  {
    assume "raised (compareSetHandler s k e d io st) = None"
    with r w show "written (compareSetHandler s k e d io st)
             = as_events (frames k e d (bucket (watchedSockets st) k)) @ [Send s (WVector d)]"
      by (simp add: as_events_def)
  }
  {
    assume "io s = \<infinity> \<and> (\<forall>t \<in> set (bucket (watchedSockets st) k). io t = \<infinity>)"
    then have "\<forall>tw \<in> set ?xs. io (fst tw) = \<infinity>"
      by (auto simp: frames_def frame_def)
    from sent_all [OF this] r show "raised (compareSetHandler s k e d io st) = None"
      by simp
  }
  {
    assume x: "raised (compareSetHandler s k e d io st) \<noteq> None"
    then show "serve s (COMPARE_SET k e d) io st
             = (scrub s (state (compareSetHandler s k e d io st)),
                written (compareSetHandler s k e d io st) @ [Close s])"
      by (auto simp: serve_def Let_def)
    with m show "tcpStore (fst (serve s (COMPARE_SET k e d) io st)) k = Some d"
      by (simp add: c f scrub_def)
  }
qed

theorem compareSet_fixed_point_witness:
  "tcpStore init_daemon ''/k'' = None
   \<and> written (compareSetHandler 4 ''/k'' [9] [2] reliable init_daemon) = [Send 4 (WVector [9])]
   \<and> state (compareSetHandler 4 ''/k'' [9] [2] reliable init_daemon) = init_daemon
   \<and> tcpStore (init_daemon\<lparr>tcpStore := [''/k'' \<mapsto> [1]]\<rparr>) ''/k'' = Some [1]
   \<and> written (compareSetHandler 4 ''/k'' [9] [2] reliable (init_daemon\<lparr>tcpStore := [''/k'' \<mapsto> [1]]\<rparr>))
        = [Send 4 (WVector [1])]
   \<and> state (compareSetHandler 4 ''/k'' [9] [2] reliable (init_daemon\<lparr>tcpStore := [''/k'' \<mapsto> [1]]\<rparr>))
        = init_daemon\<lparr>tcpStore := [''/k'' \<mapsto> [1]]\<rparr>
   \<and> tcpStore (state (compareSetHandler 4 ''/k'' [1] [2] reliable
          (init_daemon\<lparr>tcpStore := [''/k'' \<mapsto> [1]], watchedSockets := [''/k'' \<mapsto> [5]]\<rparr>))) ''/k''
        = Some [2]
   \<and> raised (compareSetHandler 4 ''/k'' [1] [2] reliable
          (init_daemon\<lparr>tcpStore := [''/k'' \<mapsto> [1]], watchedSockets := [''/k'' \<mapsto> [5]]\<rparr>)) = None
   \<and> written (compareSetHandler 4 ''/k'' [1] [2] reliable
          (init_daemon\<lparr>tcpStore := [''/k'' \<mapsto> [1]], watchedSockets := [''/k'' \<mapsto> [5]]\<rparr>))
        = [Send 5 (WatchResponse KEY_UPDATED), Send 5 (WString ''/k''), Send 5 (WVector [1]),
           Send 5 (WVector [2]), Send 4 (WVector [2])]
   \<and> raised (compareSetHandler 4 ''/k'' [1] [2] (reliable(5 := 1))
          (init_daemon\<lparr>tcpStore := [''/k'' \<mapsto> [1]], watchedSockets := [''/k'' \<mapsto> [5]]\<rparr>))
        \<noteq> None
   \<and> snd (serve 4 (COMPARE_SET ''/k'' [1] [2]) (reliable(5 := 1))
          (init_daemon\<lparr>tcpStore := [''/k'' \<mapsto> [1]], watchedSockets := [''/k'' \<mapsto> [5]]\<rparr>))
        = [Send 5 (WatchResponse KEY_UPDATED), Close 4]
   \<and> tcpStore (fst (serve 4 (COMPARE_SET ''/k'' [1] [2]) (reliable(5 := 1))
          (init_daemon\<lparr>tcpStore := [''/k'' \<mapsto> [1]], watchedSockets := [''/k'' \<mapsto> [5]]\<rparr>))) ''/k''
        = Some [2]"
proof -
  let ?st1 = "init_daemon\<lparr>tcpStore := [''/k'' \<mapsto> [1]]\<rparr>"
  let ?st2 = "init_daemon\<lparr>tcpStore := [''/k'' \<mapsto> [1]], watchedSockets := [''/k'' \<mapsto> [5]]\<rparr>"
  let ?io = "reliable(5 := 1)"
  have a: "tcpStore init_daemon ''/k'' = None"
    by (simp add: init_daemon_def)
  have b: "tcpStore ?st1 ''/k'' = Some [1] \<and> ([1] :: byte list) \<noteq> [9]"
    by simp
  have c: "tcpStore ?st2 ''/k'' = Some [1]"
    by simp
  have al: "reliable 4 \<noteq> 0"
    by simp
  have w: "bucket (watchedSockets ?st2) ''/k'' = [5]"
    by (simp add: bucket_def)
  have u: "reliable 4 = \<infinity> \<and> (\<forall>t \<in> set (bucket (watchedSockets ?st2) ''/k''). reliable t = \<infinity>)"
    by simp
  note t0 = compareSet_fixed_point [where st = init_daemon and k = "''/k''" and s = 4
      and e = "[9]" and d = "[2]" and io = reliable, THEN conjunct1, rule_format, OF a]
  note t1 = compareSet_fixed_point [where st = ?st1 and k = "''/k''" and s = 4
      and e = "[9]" and d = "[2]" and io = reliable, THEN conjunct2, THEN conjunct1,
      rule_format, OF b]
  note t2 = compareSet_fixed_point [where st = ?st2 and k = "''/k''" and s = 4
      and e = "[1]" and d = "[2]" and io = reliable, THEN conjunct2, THEN conjunct2,
      rule_format, OF c]
  note t3 = compareSet_fixed_point [where st = ?st2 and k = "''/k''" and s = 4
      and e = "[1]" and d = "[2]" and io = ?io, THEN conjunct2, THEN conjunct2,
      rule_format, OF c]
  have 1: "written (compareSetHandler 4 ''/k'' [9] [2] reliable init_daemon) = [Send 4 (WVector [9])]"
    using t0 [THEN conjunct2, THEN conjunct2, rule_format, OF al] by simp
  have 2: "state (compareSetHandler 4 ''/k'' [9] [2] reliable init_daemon) = init_daemon"
    using t0 [THEN conjunct2, THEN conjunct1] .
  have 3: "written (compareSetHandler 4 ''/k'' [9] [2] reliable ?st1) = [Send 4 (WVector [1])]"
    using t1 [THEN conjunct2, THEN conjunct2, rule_format, OF al] by simp
  have 4: "state (compareSetHandler 4 ''/k'' [9] [2] reliable ?st1) = ?st1"
    using t1 [THEN conjunct2, THEN conjunct1] .
  have 5: "tcpStore (state (compareSetHandler 4 ''/k'' [1] [2] reliable ?st2)) ''/k'' = Some [2]"
    using t2 [THEN conjunct1] by simp
  have 6: "raised (compareSetHandler 4 ''/k'' [1] [2] reliable ?st2) = None"
    using t2 [THEN conjunct2, THEN conjunct2, THEN conjunct2, THEN conjunct2, THEN conjunct1,
        rule_format, OF u] .
  have 7: "written (compareSetHandler 4 ''/k'' [1] [2] reliable ?st2)
        = [Send 5 (WatchResponse KEY_UPDATED), Send 5 (WString ''/k''), Send 5 (WVector [1]),
           Send 5 (WVector [2]), Send 4 (WVector [2])]"
    using t2 [THEN conjunct2, THEN conjunct2, THEN conjunct2, THEN conjunct1, rule_format, OF 6]
    by (simp add: bucket_def frames_def frame_def as_events_def)
  have s: "sent ?io (frames ''/k'' [1] [2] (bucket (watchedSockets ?st2) ''/k'') @ [(4, WVector [2])])
             = [(5, WatchResponse KEY_UPDATED)]"
    by (simp add: bucket_def frames_def frame_def one_enat_def zero_enat_def)
  have ne: "sent ?io (frames ''/k'' [1] [2] (bucket (watchedSockets ?st2) ''/k'') @ [(4, WVector [2])])
             \<noteq> frames ''/k'' [1] [2] (bucket (watchedSockets ?st2) ''/k'') @ [(4, WVector [2])]"
    by (simp add: bucket_def frames_def frame_def one_enat_def zero_enat_def)
  have n: "raised (compareSetHandler 4 ''/k'' [1] [2] ?io ?st2) \<noteq> None"
    using ne unfolding t3 [THEN conjunct2, THEN conjunct2, THEN conjunct1] .
  note t4 = t3 [THEN conjunct2, THEN conjunct2, THEN conjunct2, THEN conjunct2, THEN conjunct2,
      rule_format, OF n]
  have 9: "snd (serve 4 (COMPARE_SET ''/k'' [1] [2]) ?io ?st2)
        = [Send 5 (WatchResponse KEY_UPDATED), Close 4]"
    using t4 [THEN conjunct1] t3 [THEN conjunct2, THEN conjunct1] s
    by (simp add: as_events_def)
  have 10: "tcpStore (fst (serve 4 (COMPARE_SET ''/k'' [1] [2]) ?io ?st2)) ''/k'' = Some [2]"
    using t4 [THEN conjunct2] .
  from a 1 2 b [THEN conjunct1] 3 4 5 6 7 n 9 10 show ?thesis
    by (intro conjI)
qed

subsection \<open>Helper facts about the handlers\<close>

lemma state_and_then:
  "state (and_then r f) = (if raised r = None then state (f (budget r) (state r)) else state r)"
  by (cases "raised r") (simp_all add: and_then_def Let_def)

lemma written_and_then:
  "written (and_then r f)
     = (if raised r = None then written r @ written (f (budget r) (state r)) else written r)"
  by (cases "raised r") (simp_all add: and_then_def Let_def)

lemma raised_and_then:
  "raised (and_then r f) = (if raised r = None then raised (f (budget r) (state r)) else raised r)"
  by (cases "raised r") (simp_all add: and_then_def Let_def)

lemma budget_and_then:
  "budget (and_then r f) = (if raised r = None then budget (f (budget r) (state r)) else budget r)"
  by (cases "raised r") (simp_all add: and_then_def Let_def)

lemmas and_then_fields = state_and_then written_and_then raised_and_then budget_and_then

lemma wakeup_loop_untouched [simp]:
  "tcpStore (state (wakeup_loop l io st)) = tcpStore st"
  "waitingSockets (state (wakeup_loop l io st)) = waitingSockets st"
  "watchedSockets (state (wakeup_loop l io st)) = watchedSockets st"
  "sockets (state (wakeup_loop l io st)) = sockets st"
  by (induction l arbitrary: io st; simp add: Let_def and_then_fields)+

lemma wakeup_untouched [simp]:
  "tcpStore (state (wakeupWaitingClients k io st)) = tcpStore st"
  "watchedSockets (state (wakeupWaitingClients k io st)) = watchedSockets st"
  "sockets (state (wakeupWaitingClients k io st)) = sockets st"
  by (simp_all add: wakeupWaitingClients_def and_then_fields split: option.splits)

lemma state_sends [simp]: "state (sends xs io st) = st"
  by (simp add: sends_fields)

lemma state_sendKeyUpdates:
  "state (sendKeyUpdatesToClients k old new io st)
     = st\<lparr>watchedSockets := (watchedSockets st)(k \<mapsto> bucket (watchedSockets st) k)\<rparr>"
  by (simp add: sendKeyUpdates_sends)

lemma sendKeyUpdates_untouched [simp]:
  "tcpStore (state (sendKeyUpdatesToClients k old new io st)) = tcpStore st"
  "waitingSockets (state (sendKeyUpdatesToClients k old new io st)) = waitingSockets st"
  "keysAwaited (state (sendKeyUpdatesToClients k old new io st)) = keysAwaited st"
  "sockets (state (sendKeyUpdatesToClients k old new io st)) = sockets st"
  by (simp_all add: state_sendKeyUpdates)

lemma tcpStore_setHandler [simp]:
  "tcpStore (state (setHandler s k v io st)) = (tcpStore st)(k \<mapsto> v)"
  by (simp add: setHandler_def Let_def and_then_fields)

lemma tcpStore_addStore [simp]:
  "tcpStore (state (addStore s k t old io st)) = (tcpStore st)(k \<mapsto> to_string t)"
  by (simp add: addStore_def Let_def and_then_fields)

lemma tcpStore_scrub [simp]: "tcpStore (scrub s st) = tcpStore st"
  by (simp add: scrub_def)

lemma int64_replies_append [simp]:
  "int64_replies (xs @ ys) = int64_replies xs @ int64_replies ys"
  by (induction xs rule: int64_replies.induct) simp_all

lemma int64_replies_none:
  "\<forall>e \<in> set ev. \<forall>t n. e \<noteq> Send t (WInt64 n) \<Longrightarrow> int64_replies ev = []"
  by (induction ev rule: int64_replies.induct) auto

lemma set_sent: "set (sent io xs) \<subseteq> set xs"
  using sent_take [of io xs] set_take_subset [of "length (sent io xs)" xs] by simp

lemma int64_replies_frames [simp]:
  "int64_replies (as_events (sent io (frames k old new ws))) = []"
proof (rule int64_replies_none)
  have "\<forall>tw \<in> set (frames k old new ws). \<forall>n. snd tw \<noteq> WInt64 n"
    by (auto simp: frames_def frame_def)
  with set_sent [of io "frames k old new ws"]
  show "\<forall>e\<in>set (as_events (sent io (frames k old new ws))). \<forall>t n. e \<noteq> Send t (WInt64 n)"
    by (auto simp: as_events_def)
qed

lemma int64_replies_sendKeyUpdates [simp]:
  "int64_replies (written (sendKeyUpdatesToClients k old new io st)) = []"
  by (simp add: sendKeyUpdates_sends sends_fields)

lemma int64_replies_wakeup_loop [simp]: "int64_replies (written (wakeup_loop l io st)) = []"
  by (induction l arbitrary: io st) (simp_all add: Let_def and_then_fields written_send)

lemma int64_replies_wakeup [simp]: "int64_replies (written (wakeupWaitingClients k io st)) = []"
  by (simp add: wakeupWaitingClients_def and_then_fields split: option.splits)

lemma int64_replies_setHandler [simp]: "int64_replies (written (setHandler s k v io st)) = []"
  by (simp add: setHandler_def Let_def and_then_fields)

lemma serve_SET_store [simp]:
  "tcpStore (fst (serve s (SET k v) io st)) = (tcpStore st)(k \<mapsto> v)"
  by (simp add: serve_def Let_def split: option.splits)

lemma serve_SET_replies [simp]: "int64_replies (snd (serve s (SET k v) io st)) = []"
  by (simp add: serve_def Let_def split: option.splits)

text \<open>
  When the sockets of the waiting list accept every write, the wake-up loop runs to its
  end and leaves the environment as it was.
\<close>

lemma wakeup_loop_completes:
  "\<forall>t \<in> set l. io t = \<infinity> \<Longrightarrow>
   raised (wakeup_loop l io st) = None \<and> budget (wakeup_loop l io st) = io"
proof (induction l arbitrary: st)
  case Nil
  then show ?case by simp
next
  case (Cons x l)
  then show ?case
    by (simp add: Let_def and_then_fields send_unlimited)
qed

lemma wakeup_completes:
  "\<forall>t \<in> set (bucket (waitingSockets st) k). io t = \<infinity> \<Longrightarrow>
   raised (wakeupWaitingClients k io st) = None \<and> budget (wakeupWaitingClients k io st) = io"
proof (cases "waitingSockets st k")
  case None
  then show ?thesis by (simp add: wakeupWaitingClients_def)
next
  case (Some l)
  assume "\<forall>t \<in> set (bucket (waitingSockets st) k). io t = \<infinity>"
  with Some have "\<forall>t \<in> set l. io t = \<infinity>"
    by (simp add: bucket_def)
  from wakeup_loop_completes [OF this, of st] Some show ?thesis
    by (simp add: wakeupWaitingClients_def and_then_fields)
qed

subsection \<open>Deleting a key\<close>



subsection \<open>Waiting for no key\<close>

text \<open>
  C10. A WAIT request that carries no key is answered at once with STOP_WAITING, because
  \<open>checkKeys\<close> holds of the empty list, and it registers nothing: the handler is the
  write of STOP_WAITING to the caller and nothing else, and the state (the waiting lists,
  the remaining-counts and the store map with it) is unchanged whether that write
  succeeds or raises. The reply is written when the caller's socket accepts it; in the
  environment in which no write raises the handler returns the state as it was and that
  one reply.
\<close>

theorem wait_no_keys:
  "checkKeys [] st
   \<and> waitHandler s [] io st = send s (WaitResponse STOP_WAITING) io st
   \<and> query s (WAIT []) io st = send s (WaitResponse STOP_WAITING) io st
   \<and> state (waitHandler s [] io st) = st
   \<and> waitHandler s [] reliable st
       = \<lparr>state = st, written = [Send s (WaitResponse STOP_WAITING)], budget = reliable,
          raised = None\<rparr>
   \<and> serve s (WAIT []) reliable st = (st, [Send s (WaitResponse STOP_WAITING)])
   \<and> (io s \<noteq> 0 \<longrightarrow>
        written (waitHandler s [] io st) = [Send s (WaitResponse STOP_WAITING)]
        \<and> raised (waitHandler s [] io st) = None
        \<and> serve s (WAIT []) io st = (st, [Send s (WaitResponse STOP_WAITING)]))"
  by (simp add: waitHandler_def checkKeys_def send_unlimited send_taken serve_def)

theorem wait_no_keys_witness:
  "(reliable(5 := 1)) 5 \<noteq> 0
   \<and> written (waitHandler 5 [] (reliable(5 := 1)) init_daemon) = [Send 5 (WaitResponse STOP_WAITING)]
   \<and> raised (waitHandler 5 [] (reliable(5 := 1)) init_daemon) = None
   \<and> serve 5 (WAIT []) (reliable(5 := 1)) init_daemon
       = (init_daemon, [Send 5 (WaitResponse STOP_WAITING)])"
proof -
  have a: "(reliable(5 := 1)) 5 \<noteq> 0"
    by simp
  note t = wait_no_keys [where s = 5 and io = "reliable(5 := 1)" and st = init_daemon,
      THEN conjunct2, THEN conjunct2, THEN conjunct2, THEN conjunct2, THEN conjunct2,
      THEN conjunct2, rule_format, OF a]
  from a t show ?thesis
    by (intro conjI) simp_all
qed

subsection \<open>Reading a key\<close>

lemma bucket_removeSocket [simp]:
  "bucket (removeSocket t m) k = filter (\<lambda>x. x \<noteq> t) (bucket m k)"
  by (simp add: removeSocket_def bucket_def Let_def split: option.splits)

lemma removeSocket_no_empty: "removeSocket s m k \<noteq> Some []"
  by (simp add: removeSocket_def Let_def split: option.splits)

lemma unreferenced_scrub: "unreferenced s (scrub s st)"
  by (simp add: unreferenced_def scrub_def awaited_def)

lemma serve_raised:
  "raised (query s req io st) \<noteq> None \<Longrightarrow>
   serve s req io st = (scrub s (state (query s req io st)), written (query s req io st) @ [Close s])"
  by (auto simp: serve_def Let_def)

lemma serve_returned:
  "raised (query s req io st) = None \<Longrightarrow>
   serve s req io st = (state (query s req io st), written (query s req io st))"
  by (simp add: serve_def Let_def)

text \<open>
  C8. GET on a missing key fails the handler. If the key is absent from the store map,
  \<open>getHandler\<close> raises \<open>std::out_of_range\<close> (the lookup \<open>at\<close> fails) and writes no reply.
  The dispatch loop then closes the connection and scrubs it: the socket is taken out of
  every waiting list and every watcher list, the other sockets staying in their order,
  no empty list is left in either map, the socket's remaining-count is erased, and the
  store is as it was; the loop also erases the socket from the poll set and from the
  socket list. If the key is present, the handler is the write of the stored value to the
  caller and leaves the state as it was; it raises nothing of its own, the reply being
  written when the caller's socket accepts it.
\<close>

theorem get_missing_key:
  "(tcpStore st k = None \<longrightarrow>
      getHandler s k io st = throw out_of_range io st
      \<and> query s (GET k) io st = throw out_of_range io st
      \<and> raised (getHandler s k io st) = Some out_of_range
      \<and> written (getHandler s k io st) = []
      \<and> snd (serve s (GET k) io st) = [Close s]
      \<and> tcpStore (fst (serve s (GET k) io st)) = tcpStore st
      \<and> (\<forall>k'. bucket (waitingSockets (fst (serve s (GET k) io st))) k'
                = filter (\<lambda>x. x \<noteq> s) (bucket (waitingSockets st) k'))
      \<and> (\<forall>k'. bucket (watchedSockets (fst (serve s (GET k) io st))) k'
                = filter (\<lambda>x. x \<noteq> s) (bucket (watchedSockets st) k'))
      \<and> (\<forall>k'. waitingSockets (fst (serve s (GET k) io st)) k' \<noteq> Some [])
      \<and> (\<forall>k'. watchedSockets (fst (serve s (GET k) io st)) k' \<noteq> Some [])
      \<and> keysAwaited (fst (serve s (GET k) io st)) = (keysAwaited st)(s := None)
      \<and> unreferenced s (fst (serve s (GET k) io st))
      \<and> (\<forall>rq wr (fds :: pollfd list) i.
            i < length fds \<and> revents (fds ! i) \<noteq> 0 \<and> fd (fds ! i) = s \<and> rq s = GET k \<longrightarrow>
            queryFds_from rq wr i fds st =
              (let q = queryFds_from rq wr i (erase_at i fds)
                         ((fst (serve s (GET k) (wr s) st))
                            \<lparr>sockets := erase_at (i - CONNECT_SOCKET_OFFSET) (sockets st)\<rparr>)
               in (fst q, fst (snd q), Close s # snd (snd q)))))
   \<and> (\<forall>v. tcpStore st k = Some v \<longrightarrow>
      getHandler s k io st = send s (WVector v) io st
      \<and> query s (GET k) io st = send s (WVector v) io st
      \<and> state (getHandler s k io st) = st
      \<and> getHandler s k reliable st
          = \<lparr>state = st, written = [Send s (WVector v)], budget = reliable, raised = None\<rparr>
      \<and> serve s (GET k) reliable st = (st, [Send s (WVector v)])
      \<and> (io s \<noteq> 0 \<longrightarrow>
           written (getHandler s k io st) = [Send s (WVector v)]
           \<and> raised (getHandler s k io st) = None
           \<and> serve s (GET k) io st = (st, [Send s (WVector v)])))"
proof (intro conjI impI allI)
  assume a: "tcpStore st k = None"
  then have g: "getHandler s k io st = throw out_of_range io st" for io
    by (simp add: getHandler_def)
  have sv: "serve s (GET k) io st = (scrub s st, [Close s])" for io
    by (simp add: serve_def g)
  show "getHandler s k io st = throw out_of_range io st"
    by (rule g)
  show "query s (GET k) io st = throw out_of_range io st"
    by (simp add: g)
  show "raised (getHandler s k io st) = Some out_of_range"
    "written (getHandler s k io st) = []"
    by (simp_all add: g)
  show "snd (serve s (GET k) io st) = [Close s]"
    "tcpStore (fst (serve s (GET k) io st)) = tcpStore st"
    by (simp_all add: sv)
  show "keysAwaited (fst (serve s (GET k) io st)) = (keysAwaited st)(s := None)"
    by (simp add: sv scrub_def)
  show "unreferenced s (fst (serve s (GET k) io st))"
    by (simp add: sv unreferenced_scrub)
  {
    fix k'
    show "bucket (waitingSockets (fst (serve s (GET k) io st))) k'
                = filter (\<lambda>x. x \<noteq> s) (bucket (waitingSockets st) k')"
      "bucket (watchedSockets (fst (serve s (GET k) io st))) k'
                = filter (\<lambda>x. x \<noteq> s) (bucket (watchedSockets st) k')"
      "waitingSockets (fst (serve s (GET k) io st)) k' \<noteq> Some []"
      "watchedSockets (fst (serve s (GET k) io st)) k' \<noteq> Some []"
      by (simp_all add: sv scrub_def removeSocket_no_empty)
  }
  {
    fix rq wr and fds :: "pollfd list" and i
    assume "i < length fds \<and> revents (fds ! i) \<noteq> 0 \<and> fd (fds ! i) = s \<and> rq s = GET k"
    then show "queryFds_from rq wr i fds st =
              (let q = queryFds_from rq wr i (erase_at i fds)
                         ((fst (serve s (GET k) (wr s) st))
                            \<lparr>sockets := erase_at (i - CONNECT_SOCKET_OFFSET) (sockets st)\<rparr>)
               in (fst q, fst (snd q), Close s # snd (snd q)))"
      by (subst queryFds_from.simps) (simp add: g sv Let_def)
  }
next
  fix v
  assume a: "tcpStore st k = Some v"
  then have g: "getHandler s k io st = send s (WVector v) io st" for io
    by (simp add: getHandler_def)
  show "getHandler s k io st = send s (WVector v) io st"
    by (rule g)
  show "query s (GET k) io st = send s (WVector v) io st"
    by (simp add: g)
  show "state (getHandler s k io st) = st"
    by (simp add: g)
  show "getHandler s k reliable st
          = \<lparr>state = st, written = [Send s (WVector v)], budget = reliable, raised = None\<rparr>"
    by (simp add: g send_unlimited)
  show "serve s (GET k) reliable st = (st, [Send s (WVector v)])"
    by (simp add: serve_def g send_unlimited)
  {
    assume "io s \<noteq> 0"
    then show "written (getHandler s k io st) = [Send s (WVector v)]"
      "raised (getHandler s k io st) = None"
      "serve s (GET k) io st = (st, [Send s (WVector v)])"
      by (simp_all add: serve_def g send_taken)
  }
qed

theorem get_missing_key_witness:
  "tcpStore (fst (serve_all init_daemon
       [(5, WAIT [''/a''], reliable), (5, WATCH_KEY ''/b'', reliable)])) ''/k'' = None
   \<and> waitingSockets (fst (serve_all init_daemon
       [(5, WAIT [''/a''], reliable), (5, WATCH_KEY ''/b'', reliable)])) ''/a'' = Some [5]
   \<and> watchedSockets (fst (serve_all init_daemon
       [(5, WAIT [''/a''], reliable), (5, WATCH_KEY ''/b'', reliable)])) ''/b'' = Some [5]
   \<and> keysAwaited (fst (serve_all init_daemon
       [(5, WAIT [''/a''], reliable), (5, WATCH_KEY ''/b'', reliable)])) 5 = Some 1
   \<and> snd (serve 5 (GET ''/k'') reliable (fst (serve_all init_daemon
       [(5, WAIT [''/a''], reliable), (5, WATCH_KEY ''/b'', reliable)]))) = [Close 5]
   \<and> bucket (waitingSockets (fst (serve 5 (GET ''/k'') reliable (fst (serve_all init_daemon
       [(5, WAIT [''/a''], reliable), (5, WATCH_KEY ''/b'', reliable)]))))) ''/a'' = []
   \<and> waitingSockets (fst (serve 5 (GET ''/k'') reliable (fst (serve_all init_daemon
       [(5, WAIT [''/a''], reliable), (5, WATCH_KEY ''/b'', reliable)])))) ''/a'' \<noteq> Some []
   \<and> bucket (watchedSockets (fst (serve 5 (GET ''/k'') reliable (fst (serve_all init_daemon
       [(5, WAIT [''/a''], reliable), (5, WATCH_KEY ''/b'', reliable)]))))) ''/b'' = []
   \<and> keysAwaited (fst (serve 5 (GET ''/k'') reliable (fst (serve_all init_daemon
       [(5, WAIT [''/a''], reliable), (5, WATCH_KEY ''/b'', reliable)])))) 5 = None
   \<and> unreferenced 5 (fst (serve 5 (GET ''/k'') reliable (fst (serve_all init_daemon
       [(5, WAIT [''/a''], reliable), (5, WATCH_KEY ''/b'', reliable)]))))
   \<and> queryFds (\<lambda>s. GET ''/k'') (\<lambda>s. reliable)
        [\<lparr>fd = 3, events = POLLIN, revents = 0\<rparr>, \<lparr>fd = 4, events = POLLHUP, revents = 0\<rparr>,
         \<lparr>fd = 5, events = POLLIN, revents = POLLIN\<rparr>]
        ((fst (serve_all init_daemon
            [(5, WAIT [''/a''], reliable), (5, WATCH_KEY ''/b'', reliable)]))\<lparr>sockets := [5]\<rparr>)
      = ([\<lparr>fd = 3, events = POLLIN, revents = 0\<rparr>, \<lparr>fd = 4, events = POLLHUP, revents = 0\<rparr>],
         init_daemon, [Close 5])
   \<and> tcpStore (init_daemon\<lparr>tcpStore := [''/k'' \<mapsto> [1]]\<rparr>) ''/k'' = Some [1]
   \<and> serve 5 (GET ''/k'') reliable (init_daemon\<lparr>tcpStore := [''/k'' \<mapsto> [1]]\<rparr>)
      = (init_daemon\<lparr>tcpStore := [''/k'' \<mapsto> [1]]\<rparr>, [Send 5 (WVector [1])])"
proof -
  let ?fds = "[\<lparr>fd = 3, events = POLLIN, revents = 0\<rparr>, \<lparr>fd = 4, events = POLLHUP, revents = 0\<rparr>,
         \<lparr>fd = 5, events = POLLIN, revents = POLLIN\<rparr>]"
  let ?st = "fst (serve_all init_daemon
       [(5, WAIT [''/a''], reliable), (5, WATCH_KEY ''/b'', reliable)])"
  let ?st' = "?st\<lparr>sockets := [5]\<rparr>"
  let ?st1 = "init_daemon\<lparr>tcpStore := [''/k'' \<mapsto> [1]]\<rparr>"
  have e: "?st = init_daemon\<lparr>waitingSockets := [''/a'' \<mapsto> [5]], keysAwaited := [5 \<mapsto> 1],
              watchedSockets := [''/b'' \<mapsto> [5]]\<rparr>"
    by (simp add: run_defs)
  have a: "tcpStore ?st ''/k'' = None" "tcpStore ?st' ''/k'' = None"
    unfolding e by (simp_all add: init_daemon_def)
  have r: "waitingSockets ?st ''/a'' = Some [5]" "watchedSockets ?st ''/b'' = Some [5]"
    "keysAwaited ?st 5 = Some 1"
    unfolding e by simp_all
  have b: "tcpStore ?st1 ''/k'' = Some [1]"
    by simp
  note t = get_missing_key [where st = ?st and k = "''/k''" and s = 5 and io = reliable,
      THEN conjunct1, rule_format, OF a(1)]
  note u = get_missing_key [where st = ?st' and k = "''/k''" and s = 5 and io = reliable,
      THEN conjunct1, rule_format, OF a(2)]
  note p = get_missing_key [where st = ?st1 and k = "''/k''" and s = 5 and io = reliable,
      THEN conjunct2, rule_format, OF b]
  have 1: "snd (serve 5 (GET ''/k'') reliable ?st) = [Close 5]"
    using t [THEN conjunct2, THEN conjunct2, THEN conjunct2, THEN conjunct2, THEN conjunct1] .
  have 2: "bucket (waitingSockets (fst (serve 5 (GET ''/k'') reliable ?st))) ''/a'' = []"
    using t [THEN conjunct2, THEN conjunct2, THEN conjunct2, THEN conjunct2, THEN conjunct2,
        THEN conjunct2, THEN conjunct1, rule_format, of "''/a''"] r(1)
    by (simp add: bucket_def)
  have 3: "waitingSockets (fst (serve 5 (GET ''/k'') reliable ?st)) ''/a'' \<noteq> Some []"
    using t [THEN conjunct2, THEN conjunct2, THEN conjunct2, THEN conjunct2, THEN conjunct2,
        THEN conjunct2, THEN conjunct2, THEN conjunct2, THEN conjunct1, rule_format, of "''/a''"] .
  have 4: "bucket (watchedSockets (fst (serve 5 (GET ''/k'') reliable ?st))) ''/b'' = []"
    using t [THEN conjunct2, THEN conjunct2, THEN conjunct2, THEN conjunct2, THEN conjunct2,
        THEN conjunct2, THEN conjunct2, THEN conjunct1, rule_format, of "''/b''"] r(2)
    by (simp add: bucket_def)
  have 5: "keysAwaited (fst (serve 5 (GET ''/k'') reliable ?st)) 5 = None"
    using t [THEN conjunct2, THEN conjunct2, THEN conjunct2, THEN conjunct2, THEN conjunct2,
        THEN conjunct2, THEN conjunct2, THEN conjunct2, THEN conjunct2, THEN conjunct2,
        THEN conjunct1]
    by simp
  have 6: "unreferenced 5 (fst (serve 5 (GET ''/k'') reliable ?st))"
    using t [THEN conjunct2, THEN conjunct2, THEN conjunct2, THEN conjunct2, THEN conjunct2,
        THEN conjunct2, THEN conjunct2, THEN conjunct2, THEN conjunct2, THEN conjunct2,
        THEN conjunct2, THEN conjunct1] .
  have c: "(2::nat) < length ?fds \<and> revents (?fds ! 2) \<noteq> 0 \<and> fd (?fds ! 2) = 5
            \<and> (\<lambda>s::socket. GET ''/k'') 5 = GET ''/k''"
    by (simp add: POLLIN_def)
  note q = u [THEN conjunct2, THEN conjunct2, THEN conjunct2, THEN conjunct2, THEN conjunct2,
        THEN conjunct2, THEN conjunct2, THEN conjunct2, THEN conjunct2, THEN conjunct2,
        THEN conjunct2, THEN conjunct2, rule_format, OF c, where wr = "\<lambda>s. reliable"]
  have d: "(fst (serve 5 (GET ''/k'') reliable ?st'))
              \<lparr>sockets := erase_at (2 - CONNECT_SOCKET_OFFSET) (sockets ?st')\<rparr> = init_daemon"
    unfolding e
    by (simp add: serve_def getHandler_def scrub_def init_daemon_def removeSocket_def fun_eq_iff
        erase_at_def CONNECT_SOCKET_OFFSET_def)
  from q [unfolded d] have 7: "queryFds (\<lambda>s. GET ''/k'') (\<lambda>s. reliable) ?fds ?st'
     = ([\<lparr>fd = 3, events = POLLIN, revents = 0\<rparr>, \<lparr>fd = 4, events = POLLHUP, revents = 0\<rparr>],
         init_daemon, [Close 5])"
    by (simp add: queryFds_def CONNECT_SOCKET_OFFSET_def erase_at_def
        queryFds_from.simps [of _ _ 2 "[a, b]" for a b])
  have 8: "serve 5 (GET ''/k'') reliable ?st1 = (?st1, [Send 5 (WVector [1])])"
    using p [THEN conjunct2, THEN conjunct2, THEN conjunct2, THEN conjunct2, THEN conjunct1] .
  from a(1) r 1 2 3 4 5 6 7 b 8 show ?thesis
    by (intro conjI)
qed

subsection \<open>Buckets of the watch overlay\<close>

text \<open>
  C9, as the spec states it, does not hold when a wake-up write raises. Socket 5 waits
  for a key and then stops accepting writes. Socket 6 sets the key: the handler stores
  the value, raises in the write of STOP_WAITING to socket 5 and never reaches the
  notification routine. The key is set and the watch overlay has no entry for it.
\<close>

theorem set_add_create_watch_bucket_counterexample:
  "tcpStore (fst (serve_all init_daemon
       [(5, WAIT [''/a''], reliable), (6, SET ''/a'' [1], reliable(5 := 0))])) ''/a'' = Some [1]
   \<and> watchedSockets (fst (serve_all init_daemon
       [(5, WAIT [''/a''], reliable), (6, SET ''/a'' [1], reliable(5 := 0))])) ''/a'' = None
   \<and> snd (serve_all init_daemon
       [(5, WAIT [''/a''], reliable), (6, SET ''/a'' [1], reliable(5 := 0))]) = [Close 6]
   \<and> tcpStore (state (addHandler 6 ''/a'' 1 (reliable(6 := 0)) init_daemon)) ''/a'' = Some [49]
   \<and> watchedSockets (state (addHandler 6 ''/a'' 1 (reliable(6 := 0)) init_daemon)) ''/a'' = None"
  by (simp add: run_defs scrub_def removeSocket_def to_string_def decimal_def digits.simps)

text \<open>
  C9, amended. Every SET and every ADD whose handler gets as far as the notification
  routine leaves an entry for the key in the watch overlay: the routine indexes the map
  with \<open>operator[]\<close>, which inserts an empty list when there is none, before its first
  write. A SET gets there when its wake-up writes succeed, which they do when the
  sockets waiting for the key accept every write; an ADD gets there when the stored value
  parses and the reply and the wake-up writes succeed. In particular every SET and every
  ADD that returns without raising leaves the entry, so a key that no socket has ever
  watched has an empty bucket after it, and the keys of the watch overlay are not only
  keys with a subscriber. When a wake-up write of a SET raises, or the reply of an ADD,
  the key is mutated and the watch overlay is as it was.
\<close>

theorem set_add_create_watch_bucket:
  "(raised (wakeupWaitingClients k io (st\<lparr>tcpStore := (tcpStore st)(k \<mapsto> v)\<rparr>)) = None \<longrightarrow>
      watchedSockets (state (setHandler s k v io st)) k = Some (bucket (watchedSockets st) k))
   \<and> (raised (wakeupWaitingClients k io (st\<lparr>tcpStore := (tcpStore st)(k \<mapsto> v)\<rparr>)) \<noteq> None \<longrightarrow>
      watchedSockets (state (setHandler s k v io st)) = watchedSockets st
      \<and> tcpStore (state (setHandler s k v io st)) k = Some v
      \<and> raised (setHandler s k v io st) \<noteq> None)
   \<and> (raised (setHandler s k v io st) = None \<longrightarrow>
      watchedSockets (state (setHandler s k v io st)) k = Some (bucket (watchedSockets st) k))
   \<and> ((\<forall>t \<in> set (bucket (waitingSockets st) k). io t = \<infinity>) \<longrightarrow>
      watchedSockets (state (setHandler s k v io st)) k = Some (bucket (watchedSockets st) k))
   \<and> (raised (addHandler s k d io st) = None \<longrightarrow>
      watchedSockets (state (addHandler s k d io st)) k = Some (bucket (watchedSockets st) k))
   \<and> (io s = \<infinity> \<and> (\<forall>t \<in> set (bucket (waitingSockets st) k). io t = \<infinity>)
        \<and> (tcpStore st k = None \<or> (\<exists>x n. tcpStore st k = Some x \<and> stoll x = Inr n)) \<longrightarrow>
      watchedSockets (state (addHandler s k d io st)) k = Some (bucket (watchedSockets st) k))
   \<and> (io s = 0 \<longrightarrow> watchedSockets (state (addHandler s k d io st)) = watchedSockets st)
   \<and> (watchedSockets st k = None \<and> raised (setHandler s k v io st) = None \<longrightarrow>
      watchedSockets (state (setHandler s k v io st)) k = Some [])
   \<and> watchedSockets (fst (serve_all init_daemon [(3, SET ''/k'' [1], reliable)])) ''/k'' = Some []"
proof -
  let ?st1 = "st\<lparr>tcpStore := (tcpStore st)(k \<mapsto> v)\<rparr>"
  let ?w = "wakeupWaitingClients k io ?st1"
  have s1: "raised ?w = None \<Longrightarrow>
      watchedSockets (state (setHandler s k v io st)) k = Some (bucket (watchedSockets st) k)"
    by (simp add: setHandler_def Let_def and_then_fields state_sendKeyUpdates)
  have s2: "raised ?w \<noteq> None \<Longrightarrow>
      watchedSockets (state (setHandler s k v io st)) = watchedSockets st"
    "raised ?w \<noteq> None \<Longrightarrow> tcpStore (state (setHandler s k v io st)) k = Some v"
    "raised ?w \<noteq> None \<Longrightarrow> raised (setHandler s k v io st) \<noteq> None"
    by (cases "raised ?w"; simp add: setHandler_def Let_def and_then_fields)+
  have s3: "raised (setHandler s k v io st) = None \<Longrightarrow>
      watchedSockets (state (setHandler s k v io st)) k = Some (bucket (watchedSockets st) k)"
    using s1 by (simp add: setHandler_def Let_def raised_and_then split: if_splits)
  have s4: "\<forall>t \<in> set (bucket (waitingSockets st) k). io t = \<infinity> \<Longrightarrow>
      watchedSockets (state (setHandler s k v io st)) k = Some (bucket (watchedSockets st) k)"
    using wakeup_completes [of ?st1 k io] s1 by simp
  have as: "raised (addStore s k n old io st) = None \<Longrightarrow>
      watchedSockets (state (addStore s k n old io st)) k = Some (bucket (watchedSockets st) k)"
    for n old
    by (simp add: addStore_def Let_def and_then_fields state_sendKeyUpdates split: if_splits)
  have a1: "raised (addHandler s k d io st) = None \<Longrightarrow>
      watchedSockets (state (addHandler s k d io st)) k = Some (bucket (watchedSockets st) k)"
    using as by (simp add: addHandler_def split: option.splits sum.splits)
  have au: "io s = \<infinity> \<Longrightarrow> \<forall>t \<in> set (bucket (waitingSockets st) k). io t = \<infinity> \<Longrightarrow>
      watchedSockets (state (addStore s k n old io st)) k = Some (bucket (watchedSockets st) k)"
    for n old
    using wakeup_completes [of "st\<lparr>tcpStore := (tcpStore st)(k \<mapsto> to_string n)\<rparr>" k io]
    by (simp add: addStore_def Let_def and_then_fields state_sendKeyUpdates send_unlimited)
  have a2: "io s = \<infinity> \<and> (\<forall>t \<in> set (bucket (waitingSockets st) k). io t = \<infinity>)
        \<and> (tcpStore st k = None \<or> (\<exists>x n. tcpStore st k = Some x \<and> stoll x = Inr n)) \<Longrightarrow>
      watchedSockets (state (addHandler s k d io st)) k = Some (bucket (watchedSockets st) k)"
    using au by (auto simp: addHandler_def)
  have a3: "io s = 0 \<Longrightarrow> watchedSockets (state (addHandler s k d io st)) = watchedSockets st"
    by (simp add: addHandler_def addStore_def Let_def and_then_fields send_refused
        split: option.splits sum.splits)
  have s5: "watchedSockets st k = None \<and> raised (setHandler s k v io st) = None \<Longrightarrow>
      watchedSockets (state (setHandler s k v io st)) k = Some []"
    using s3 by (simp add: bucket_def)
  have sc: "watchedSockets (fst (serve_all init_daemon [(3, SET ''/k'' [1], reliable)])) ''/k''
      = Some []"
    by (simp add: run_defs)
  from s1 s2 s3 s4 a1 a2 a3 s5 sc show ?thesis
    by (intro conjI impI)
qed

theorem set_add_create_watch_bucket_witness:
  "raised (setHandler 3 ''/k'' [1] reliable init_daemon) = None
   \<and> watchedSockets init_daemon ''/k'' = None
   \<and> watchedSockets (state (setHandler 3 ''/k'' [1] reliable init_daemon)) ''/k'' = Some []
   \<and> raised (addHandler 3 ''/c'' 1 reliable init_daemon) = None
   \<and> watchedSockets (state (addHandler 3 ''/c'' 1 reliable init_daemon)) ''/c'' = Some []
   \<and> (reliable(6 := 0)) 6 = 0
   \<and> watchedSockets (state (addHandler 6 ''/c'' 1 (reliable(6 := 0)) init_daemon)) ''/c'' = None"
proof -
  have a: "raised (setHandler 3 ''/k'' [1] reliable init_daemon) = None"
    by (simp add: run_defs)
  have b: "watchedSockets init_daemon ''/k'' = None" "watchedSockets init_daemon ''/c'' = None"
    by (simp_all add: init_daemon_def)
  have c: "raised (addHandler 3 ''/c'' 1 reliable init_daemon) = None"
    by (simp add: run_defs)
  have z: "(reliable(6 := 0)) 6 = 0"
    by simp
  have 1: "watchedSockets (state (setHandler 3 ''/k'' [1] reliable init_daemon)) ''/k'' = Some []"
    using set_add_create_watch_bucket [where st = init_daemon and k = "''/k''" and s = 3
        and v = "[1]" and io = reliable, THEN conjunct2, THEN conjunct2, THEN conjunct1,
        rule_format, OF a] b(1)
    by (simp add: bucket_def)
  have 2: "watchedSockets (state (addHandler 3 ''/c'' 1 reliable init_daemon)) ''/c'' = Some []"
    using set_add_create_watch_bucket [where st = init_daemon and k = "''/c''" and s = 3
        and d = 1 and io = reliable, THEN conjunct2, THEN conjunct2, THEN conjunct2,
        THEN conjunct2, THEN conjunct1, rule_format, OF c] b(2)
    by (simp add: bucket_def)
  have 3: "watchedSockets (state (addHandler 6 ''/c'' 1 (reliable(6 := 0)) init_daemon)) ''/c'' = None"
    using set_add_create_watch_bucket [where st = init_daemon and k = "''/c''" and s = 6
        and d = 1 and io = "reliable(6 := 0)", THEN conjunct2, THEN conjunct2, THEN conjunct2,
        THEN conjunct2, THEN conjunct2, THEN conjunct2, THEN conjunct1, rule_format, OF z] b(2)
    by simp
  from a b(1) 1 c 2 z 3 show ?thesis
    by (intro conjI)
qed

subsection \<open>Decimal conversion round trip\<close>

lemma isdigit_digit: "d < 10 \<Longrightarrow> isdigit (48 + of_nat d)"
proof -
  assume d: "d < 10"
  have "unat (48 + of_nat d :: byte) = 48 + d"
    using d by (simp add: unat_word_ariths unat_of_nat)
  then show ?thesis
    using d by (simp add: isdigit_def word_le_nat_alt)
qed

lemma digit_val_digit: "d < 10 \<Longrightarrow> digit_val (48 + of_nat d) = d"
proof -
  assume d: "d < 10"
  have "unat (48 + of_nat d :: byte) = 48 + d"
    using d by (simp add: unat_word_ariths unat_of_nat)
  then show ?thesis by (simp add: digit_val_def)
qed

lemma isdigit_not_space: "isdigit c \<Longrightarrow> \<not> isspace c \<and> c \<noteq> 45 \<and> c \<noteq> 43"
  by (auto simp: isdigit_def isspace_def word_le_nat_alt)

lemma digits_all: "list_all isdigit (digits n)"
proof (induction n rule: digits.induct)
  case (1 n)
  show ?case
  proof (cases "n < 10")
    case True
    then show ?thesis by (subst digits.simps) (simp add: isdigit_digit)
  next
    case False
    with 1 show ?thesis by (subst digits.simps) (simp add: isdigit_digit)
  qed
qed

lemma digits_nonempty: "digits n \<noteq> []"
  by (subst digits.simps) simp

lemma digits_val_snoc: "digits_val (xs @ [c]) = 10 * digits_val xs + digit_val c"
  by (simp add: digits_val_def)

lemma digits_val_digits: "digits_val (digits n) = n"
proof (induction n rule: digits.induct)
  case (1 n)
  show ?case
  proof (cases "n < 10")
    case True
    then show ?thesis
      by (subst digits.simps) (simp add: digits_val_def digit_val_digit)
  next
    case False
    with 1 show ?thesis
      by (subst digits.simps) (simp add: digits_val_snoc digit_val_digit)
  qed
qed

lemma hd_digits: "isdigit (hd (digits n))"
  using digits_all [of n] digits_nonempty [of n] by (cases "digits n") simp_all

lemma takeWhile_digits: "takeWhile isdigit (digits n) = digits n"
  using digits_all [of n] by (simp add: list_all_iff)

lemma dropWhile_digits: "dropWhile isspace (digits n) = digits n"
  using hd_digits [of n] digits_nonempty [of n] isdigit_not_space
  by (cases "digits n") auto

lemma stoll_decimal: "in_int64 i \<Longrightarrow> stoll (decimal i) = Inr (word_of_int i)"
proof (cases "i < 0")
  case True
  assume r: "in_int64 i"
  have s: "\<not> isspace 45" by (simp add: isspace_def)
  show ?thesis
    using True r
    by (simp add: stoll_def decimal_def s takeWhile_digits digits_nonempty digits_val_digits
        in_int64_def Let_def)
next
  case False
  assume r: "in_int64 i"
  have h: "hd (digits (nat i)) \<noteq> 45" "hd (digits (nat i)) \<noteq> 43"
    using hd_digits [of "nat i"] isdigit_not_space by blast+
  show ?thesis
    using False r h
    by (simp add: stoll_def decimal_def dropWhile_digits takeWhile_digits digits_nonempty
        digits_val_digits in_int64_def Let_def)
qed

lemma in_int64_sint: "in_int64 (sint (v :: int64))"
  using sint_ge [of v] sint_lt [of v] by (simp add: in_int64_def)

lemma stoll_to_string: "stoll (to_string v) = Inr v"
  by (simp add: to_string_def stoll_decimal in_int64_sint)

lemma sint_add_in_range:
  "in_int64 (sint (a :: int64) + sint b) \<Longrightarrow> sint (a + b) = sint a + sint b"
  by (simp add: sint_word_ariths in_int64_def signed_take_bit_int_eq_self)

lemma sint_word_of_int: "in_int64 i \<Longrightarrow> sint (word_of_int i :: int64) = i"
  by (simp add: in_int64_def sint_sbintrunc' signed_take_bit_int_eq_self)

lemma int64_replies_addStore:
  "int64_replies (written (addStore s k t old io st)) = (if io s = 0 then [] else [(s, t)])"
  by (simp add: addStore_def Let_def and_then_fields written_send raised_send)

lemma raised_addStore_reliable: "raised (addStore s k t old reliable st) = None"
proof -
  let ?st1 = "st\<lparr>tcpStore := (tcpStore st)(k \<mapsto> to_string t)\<rparr>"
  have w: "raised (wakeupWaitingClients k reliable ?st1) = None
           \<and> budget (wakeupWaitingClients k reliable ?st1) = reliable"
    by (rule wakeup_completes) simp
  have "sent reliable (frames k old (to_string t) ws) = frames k old (to_string t) ws" for ws
    by (rule sent_all) simp
  with w show ?thesis
    by (simp add: addStore_def Let_def and_then_fields send_unlimited sendKeyUpdates_sends
        sends_fields)
qed

lemma addHandler_step:
  assumes "holds_total st k a" and "in_int64 (a + sint d)"
  shows "\<exists>t. addHandler s k d io st = addStore s k t (bucket (tcpStore st) k) io st
             \<and> sint t = a + sint d"
proof (cases "tcpStore st k")
  case None
  with assms show ?thesis
    by (auto simp: addHandler_def holds_total_def bucket_def)
next
  case (Some v)
  with assms have v: "v = decimal a" "in_int64 a"
    by (simp_all add: holds_total_def)
  have "sint (word_of_int a :: int64) = a"
    using v(2) by (rule sint_word_of_int)
  with assms(2) have "sint (d + word_of_int a) = a + sint d"
    using sint_add_in_range [of d "word_of_int a"] by (simp add: add.commute)
  moreover have "addHandler s k d io st
      = addStore s k (d + word_of_int a) (bucket (tcpStore st) k) io st"
    using Some v by (simp add: addHandler_def stoll_decimal bucket_def)
  ultimately show ?thesis by blast
qed

lemma serve_addStore:
  "query s (ADD k d) io st = addStore s k t old io st \<Longrightarrow>
   tcpStore (fst (serve s (ADD k d) io st)) = (tcpStore st)(k \<mapsto> to_string t)
   \<and> int64_replies (snd (serve s (ADD k d) io st)) = (if io s = 0 then [] else [(s, t)])"
  by (simp add: serve_def Let_def int64_replies_addStore split: option.splits)

text \<open>
  A sequence of ADDs on one key, each from its own socket and in its own environment:
  the store holds the total, and the replies that are written are the running totals of
  their ADDs.
\<close>

lemma serve_all_adds:
  "holds_total st k a \<Longrightarrow> length ss = length ds \<Longrightarrow> length ios = length ds \<Longrightarrow>
   list_all in_int64 (running_totals a (map sint ds)) \<Longrightarrow>
   holds_total (fst (serve_all st (zip ss (zip (map (ADD k) ds) ios)))) k (a + sum_list (map sint ds))
   \<and> (ds \<noteq> [] \<longrightarrow> tcpStore (fst (serve_all st (zip ss (zip (map (ADD k) ds) ios)))) k
                      = Some (decimal (a + sum_list (map sint ds))))
   \<and> map (\<lambda>r. (fst r, sint (snd r)))
        (int64_replies (snd (serve_all st (zip ss (zip (map (ADD k) ds) ios)))))
       = map (\<lambda>x. (fst x, snd (snd x)))
           (filter reply_taken (zip ss (zip ios (running_totals a (map sint ds)))))"
proof (induction ds arbitrary: ss ios st a)
  case Nil
  then show ?case by simp
next
  case (Cons d ds)
  from Cons.prems(2) obtain s ss' where ss: "ss = s # ss'" "length ss' = length ds"
    by (cases ss) auto
  from Cons.prems(3) obtain io ios' where ios: "ios = io # ios'" "length ios' = length ds"
    by (cases ios) auto
  from Cons.prems(4) have r: "in_int64 (a + sint d)"
    "list_all in_int64 (running_totals (a + sint d) (map sint ds))"
    by simp_all
  from addHandler_step [OF Cons.prems(1) r(1)] obtain t where
    t: "addHandler s k d io st = addStore s k t (bucket (tcpStore st) k) io st"
       "sint t = a + sint d"
    by blast
  let ?st1 = "fst (serve s (ADD k d) io st)"
  have q: "query s (ADD k d) io st = addStore s k t (bucket (tcpStore st) k) io st"
    using t(1) by simp
  note sv = serve_addStore [OF q]
  have st1: "tcpStore ?st1 k = Some (decimal (a + sint d))"
    using sv t(2) by (simp add: to_string_def)
  have h: "holds_total ?st1 k (a + sint d)"
    using st1 r(1) by (simp add: holds_total_def)
  note ih = Cons.IH [OF h ss(2) ios(2) r(2)]
  show ?case
    using ih sv ss ios t(2) st1
    by (cases "ds = []") (simp_all add: Let_def add.assoc reply_taken_def)
qed

lemma filter_reply_taken_all:
  "length ss = length ios \<Longrightarrow> length ios = length ts \<Longrightarrow>
   list_all2 (\<lambda>s io. io s \<noteq> 0) ss ios \<Longrightarrow>
   map (\<lambda>x. (fst x, snd (snd x))) (filter reply_taken (zip ss (zip ios ts))) = zip ss ts"
proof (induction ss arbitrary: ios ts)
  case Nil
  then show ?case by simp
next
  case (Cons s ss)
  then obtain io ios' t ts' where e: "ios = io # ios'" "ts = t # ts'"
    by (cases ios; cases ts) auto
  with Cons show ?case
    by (simp add: reply_taken_def)
qed

lemma length_running_totals [simp]: "length (running_totals a ds) = length ds"
  by (induction ds arbitrary: a) simp_all

subsection \<open>ADD\<close>

text \<open>
  C4. ADD semantics. \<open>addHandler\<close> reads the stored value with \<open>std::stoll\<close> (0 if the key
  is absent), adds the delta, stores the decimal representation of the sum and replies
  with the sum as a 64-bit integer; \<open>stoll\<close> of a decimal representation is the integer it
  represents. The sum is stored before anything is written, so it is stored whatever the
  sockets accept; the reply is the first write of the handler and is written when the
  caller's socket accepts it, and in the environment in which no write raises the handler
  returns without raising. For a sequence of ADDs on a key that starts absent, sent by
  any sockets in any environments, the string stored at the end is the decimal
  representation of the sum of the deltas, and the replies that are written are the
  running totals of their ADDs; when every caller's socket accepts its reply the replies
  are, in order, all the running totals. The sums are those of \<open>int64_t\<close>: they are
  required to stay in its range, where the addition of the code is exact.
\<close>

theorem add_semantics:
  "(tcpStore st k = None \<longrightarrow>
      tcpStore (state (addHandler s k d io st)) = (tcpStore st)(k \<mapsto> decimal (sint d))
      \<and> int64_replies (written (addHandler s k d io st)) = (if io s = 0 then [] else [(s, d)])
      \<and> int64_replies (written (addHandler s k d reliable st)) = [(s, d)]
      \<and> raised (addHandler s k d reliable st) = None)
   \<and> (\<forall>v n. tcpStore st k = Some v \<and> stoll v = Inr n \<and> in_int64 (sint n + sint d) \<longrightarrow>
      (\<exists>t. sint t = sint n + sint d
           \<and> tcpStore (state (addHandler s k d io st)) = (tcpStore st)(k \<mapsto> decimal (sint n + sint d))
           \<and> int64_replies (written (addHandler s k d io st)) = (if io s = 0 then [] else [(s, t)])
           \<and> int64_replies (written (addHandler s k d reliable st)) = [(s, t)]
           \<and> raised (addHandler s k d reliable st) = None))
   \<and> (\<forall>i. in_int64 i \<longrightarrow> stoll (decimal i) = Inr (word_of_int i))
   \<and> (tcpStore st k = None \<and> ds \<noteq> [] \<and> length ss = length ds \<and> length ios = length ds
        \<and> list_all in_int64 (running_totals 0 (map sint ds)) \<longrightarrow>
      tcpStore (fst (serve_all st (zip ss (zip (map (ADD k) ds) ios)))) k
        = Some (decimal (sum_list (map sint ds)))
      \<and> map (\<lambda>r. (fst r, sint (snd r)))
          (int64_replies (snd (serve_all st (zip ss (zip (map (ADD k) ds) ios)))))
        = map (\<lambda>x. (fst x, snd (snd x)))
            (filter reply_taken (zip ss (zip ios (running_totals 0 (map sint ds)))))
      \<and> (list_all2 (\<lambda>s io. io s \<noteq> 0) ss ios \<longrightarrow>
           map (\<lambda>r. (fst r, sint (snd r)))
             (int64_replies (snd (serve_all st (zip ss (zip (map (ADD k) ds) ios)))))
           = zip ss (running_totals 0 (map sint ds))))"
proof (intro conjI impI allI)
  assume a: "tcpStore st k = None"
  then have h: "addHandler s k d io st = addStore s k d [] io st" for io
    by (simp add: addHandler_def)
  show "tcpStore (state (addHandler s k d io st)) = (tcpStore st)(k \<mapsto> decimal (sint d))"
    by (simp add: h to_string_def)
  show "int64_replies (written (addHandler s k d io st)) = (if io s = 0 then [] else [(s, d)])"
    by (simp add: h int64_replies_addStore)
  show "int64_replies (written (addHandler s k d reliable st)) = [(s, d)]"
    by (simp add: h int64_replies_addStore)
  show "raised (addHandler s k d reliable st) = None"
    by (simp add: h raised_addStore_reliable)
next
  fix v n
  assume a: "tcpStore st k = Some v \<and> stoll v = Inr n \<and> in_int64 (sint n + sint d)"
  then have e: "sint (d + n) = sint n + sint d"
    using sint_add_in_range [of d n] by (simp add: add.commute)
  from a have h: "addHandler s k d io st = addStore s k (d + n) v io st" for io
    by (simp add: addHandler_def)
  have "sint (d + n) = sint n + sint d
      \<and> tcpStore (state (addHandler s k d io st)) = (tcpStore st)(k \<mapsto> decimal (sint n + sint d))
      \<and> int64_replies (written (addHandler s k d io st)) = (if io s = 0 then [] else [(s, d + n)])
      \<and> int64_replies (written (addHandler s k d reliable st)) = [(s, d + n)]
      \<and> raised (addHandler s k d reliable st) = None"
    using e by (simp add: h to_string_def int64_replies_addStore raised_addStore_reliable)
  then show "\<exists>t. sint t = sint n + sint d
           \<and> tcpStore (state (addHandler s k d io st)) = (tcpStore st)(k \<mapsto> decimal (sint n + sint d))
           \<and> int64_replies (written (addHandler s k d io st)) = (if io s = 0 then [] else [(s, t)])
           \<and> int64_replies (written (addHandler s k d reliable st)) = [(s, t)]
           \<and> raised (addHandler s k d reliable st) = None"
    by (rule exI)
next
  fix i
  assume "in_int64 i"
  then show "stoll (decimal i) = Inr (word_of_int i)"
    by (rule stoll_decimal)
next
  assume a: "tcpStore st k = None \<and> ds \<noteq> [] \<and> length ss = length ds \<and> length ios = length ds
        \<and> list_all in_int64 (running_totals 0 (map sint ds))"
  then have h: "holds_total st k 0"
    by (simp add: holds_total_def)
  from a have l: "length ss = length ds" "length ios = length ds"
    "list_all in_int64 (running_totals 0 (map sint ds))"
    by simp_all
  note t = serve_all_adds [OF h l]
  from t a show "tcpStore (fst (serve_all st (zip ss (zip (map (ADD k) ds) ios)))) k
        = Some (decimal (sum_list (map sint ds)))"
    by simp
  from t show g: "map (\<lambda>r. (fst r, sint (snd r)))
          (int64_replies (snd (serve_all st (zip ss (zip (map (ADD k) ds) ios)))))
        = map (\<lambda>x. (fst x, snd (snd x)))
            (filter reply_taken (zip ss (zip ios (running_totals 0 (map sint ds)))))"
    by simp
  {
    assume "list_all2 (\<lambda>s io. io s \<noteq> 0) ss ios"
    with filter_reply_taken_all [of ss ios "running_totals 0 (map sint ds)"] l g
    show "map (\<lambda>r. (fst r, sint (snd r)))
             (int64_replies (snd (serve_all st (zip ss (zip (map (ADD k) ds) ios)))))
           = zip ss (running_totals 0 (map sint ds))"
      by simp
  }
qed

theorem add_semantics_witness:
  "tcpStore init_daemon ''/c'' = None
   \<and> tcpStore (state (addHandler 3 ''/c'' 7 reliable init_daemon)) = (tcpStore init_daemon)(''/c'' \<mapsto> [55])
   \<and> int64_replies (written (addHandler 3 ''/c'' 7 reliable init_daemon)) = [(3, 7)]
   \<and> stoll [49, 50] = Inr 12
   \<and> (\<exists>t. sint t = 42
         \<and> tcpStore (state (addHandler 3 ''/c'' 30 reliable (init_daemon\<lparr>tcpStore := [''/c'' \<mapsto> [49, 50]]\<rparr>)))
            = (tcpStore (init_daemon\<lparr>tcpStore := [''/c'' \<mapsto> [49, 50]]\<rparr>))(''/c'' \<mapsto> [52, 50])
         \<and> int64_replies (written (addHandler 3 ''/c'' 30 reliable
              (init_daemon\<lparr>tcpStore := [''/c'' \<mapsto> [49, 50]]\<rparr>))) = [(3, t)])
   \<and> stoll (decimal (- 15)) = Inr (- 15)
   \<and> tcpStore (fst (serve_all init_daemon
        (zip [3, 4, 5] (zip (map (ADD ''/c'') [1, 1, 1]) [reliable, reliable(4 := 0), reliable])))) ''/c''
        = Some [51]
   \<and> map (\<lambda>r. (fst r, sint (snd r)))
        (int64_replies (snd (serve_all init_daemon
           (zip [3, 4, 5] (zip (map (ADD ''/c'') [1, 1, 1]) [reliable, reliable(4 := 0), reliable])))))
        = [(3, 1), (5, 3)]
   \<and> map (\<lambda>r. (fst r, sint (snd r)))
        (int64_replies (snd (serve_all init_daemon
           (zip [3, 4, 5] (zip (map (ADD ''/c'') [1, 1, 1]) [reliable, reliable, reliable])))))
        = [(3, 1), (4, 2), (5, 3)]"
proof -
  let ?st = "init_daemon\<lparr>tcpStore := [''/c'' \<mapsto> [49, 50]]\<rparr>"
  let ?ios = "[reliable, reliable(4 := 0), reliable]"
  let ?rel = "[reliable, reliable, reliable]"
  have a: "tcpStore init_daemon ''/c'' = None"
    by (simp add: init_daemon_def)
  have d7: "decimal (sint (7 :: int64)) = [55]"
    by (simp add: decimal_def digits.simps)
  have p: "stoll [49, 50] = Inr 12"
    by (simp add: stoll_def isspace_def isdigit_def digits_val_def digit_val_def)
  have b: "tcpStore ?st ''/c'' = Some [49, 50] \<and> stoll [49, 50] = Inr 12
            \<and> in_int64 (sint (12 :: int64) + sint (30 :: int64))"
    using p by (simp add: in_int64_def)
  have s42: "sint (12 :: int64) + sint (30 :: int64) = 42"
    by simp
  have d42: "decimal 42 = [52, 50]"
    by (simp add: decimal_def digits.simps)
  have r15: "in_int64 (- 15)"
    by (simp add: in_int64_def)
  have c: "tcpStore init_daemon ''/c'' = None \<and> [1, 1, 1 :: int64] \<noteq> []
            \<and> length [3, 4, 5 :: socket] = length [1, 1, 1 :: int64]
            \<and> length ?ios = length [1, 1, 1 :: int64]
            \<and> list_all in_int64 (running_totals 0 (map sint [1, 1, 1 :: int64]))"
    using a by (simp add: in_int64_def)
  have c': "tcpStore init_daemon ''/c'' = None \<and> [1, 1, 1 :: int64] \<noteq> []
            \<and> length [3, 4, 5 :: socket] = length [1, 1, 1 :: int64]
            \<and> length ?rel = length [1, 1, 1 :: int64]
            \<and> list_all in_int64 (running_totals 0 (map sint [1, 1, 1 :: int64]))"
    using a by (simp add: in_int64_def)
  have al: "list_all2 (\<lambda>s io. io s \<noteq> 0) [3, 4, 5 :: socket] ?rel"
    by simp
  have d3: "decimal (sum_list (map sint [1, 1, 1 :: int64])) = [51]"
    by (simp add: decimal_def digits.simps)
  note t = add_semantics [where st = init_daemon and k = "''/c''" and s = 3 and d = 7
      and io = reliable]
  note u = add_semantics [where st = ?st and k = "''/c''" and s = 3 and d = 30 and io = reliable]
  note w = add_semantics [where st = init_daemon and k = "''/c''" and ss = "[3, 4, 5]"
      and ds = "[1, 1, 1]" and ios = ?ios]
  note w' = add_semantics [where st = init_daemon and k = "''/c''" and ss = "[3, 4, 5]"
      and ds = "[1, 1, 1]" and ios = ?rel]
  note t1 = t [THEN conjunct1, rule_format, OF a]
  have 1: "tcpStore (state (addHandler 3 ''/c'' 7 reliable init_daemon))
             = (tcpStore init_daemon)(''/c'' \<mapsto> [55])"
    using t1 [THEN conjunct1] by (simp only: d7)
  have 2: "int64_replies (written (addHandler 3 ''/c'' 7 reliable init_daemon)) = [(3, 7)]"
    using t1 [THEN conjunct2, THEN conjunct2, THEN conjunct1] .
  from u [THEN conjunct2, THEN conjunct1, rule_format, OF b] obtain x where
    x: "sint x = sint (12 :: int64) + sint (30 :: int64)"
       "tcpStore (state (addHandler 3 ''/c'' 30 reliable ?st))
          = (tcpStore ?st)(''/c'' \<mapsto> decimal (sint (12 :: int64) + sint (30 :: int64)))"
       "int64_replies (written (addHandler 3 ''/c'' 30 reliable ?st)) = [(3, x)]"
    by blast
  have 3: "\<exists>t. sint t = 42
         \<and> tcpStore (state (addHandler 3 ''/c'' 30 reliable ?st)) = (tcpStore ?st)(''/c'' \<mapsto> [52, 50])
         \<and> int64_replies (written (addHandler 3 ''/c'' 30 reliable ?st)) = [(3, t)]"
    using x by (intro exI [of _ x]) (simp only: s42 d42 simp_thms)
  have 4: "stoll (decimal (- 15)) = Inr (- 15)"
    using t [THEN conjunct2, THEN conjunct2, THEN conjunct1, rule_format, OF r15] by simp
  note w1 = w [THEN conjunct2, THEN conjunct2, THEN conjunct2, rule_format, OF c]
  note w2 = w' [THEN conjunct2, THEN conjunct2, THEN conjunct2, rule_format, OF c']
  have 5: "tcpStore (fst (serve_all init_daemon
        (zip [3, 4, 5] (zip (map (ADD ''/c'') [1, 1, 1]) ?ios)))) ''/c'' = Some [51]"
    using w1 [THEN conjunct1] by (simp only: d3)
  have 6: "map (\<lambda>r. (fst r, sint (snd r)))
        (int64_replies (snd (serve_all init_daemon
           (zip [3, 4, 5] (zip (map (ADD ''/c'') [1, 1, 1]) ?ios)))))
        = [(3, 1), (5, 3)]"
    using w1 [THEN conjunct2, THEN conjunct1] by (simp add: reply_taken_def)
  have 7: "map (\<lambda>r. (fst r, sint (snd r)))
        (int64_replies (snd (serve_all init_daemon
           (zip [3, 4, 5] (zip (map (ADD ''/c'') [1, 1, 1]) ?rel)))))
        = [(3, 1), (4, 2), (5, 3)]"
    using w2 [THEN conjunct2, THEN conjunct2, rule_format, OF al] by simp
  from a 1 2 p 3 4 5 6 7 show ?thesis by (intro conjI)
qed

subsection \<open>The order of the steps of the event loop\<close>

lemma poll_clear_revents [simp]: "poll r (clear_revents n fds) = poll r fds"
  by (induction n fds rule: clear_revents.induct) (simp_all add: poll_def)

lemma length_poll [simp]: "length (poll r fds) = length fds"
  by (simp add: poll_def)

lemma nth_poll [simp]: "i < length fds \<Longrightarrow> revents (poll r fds ! i) = r (fd (fds ! i))"
  by (simp add: poll_def)

lemma xor_eq_0: "((x::16 word) XOR y = 0) = (x = y)"
proof
  assume "x XOR y = 0"
  then have "(x XOR y) XOR y = y" by simp
  then show "x = y" by (simp add: xor.assoc)
next
  assume "x = y"
  then show "x XOR y = 0" by simp
qed

text \<open>
  C6, as the spec states it (shutdown check first, accept second, dispatch third), does
  not hold of the loop: with the listening socket ready and the control pipe hung up, the
  loop accepts the connection and only then leaves, whereas the stated order leaves
  without accepting.
\<close>

theorem run_body_order_counterexample:
  "run_body \<lparr>ready = (\<lambda>d. if d = 3 then POLLIN else if d = 4 then POLLHUP else 0),
              accepted = 7, incoming = (\<lambda>s. GETNUMKEYS),
              writable = (\<lambda>s. reliable)\<rparr>
     (addPollfd (addPollfd [] 3 POLLIN) 4 POLLHUP) init_daemon
     = Inr (True,
            [\<lparr>fd = 3, events = POLLIN, revents = POLLIN\<rparr>,
             \<lparr>fd = 4, events = POLLHUP, revents = POLLHUP\<rparr>,
             \<lparr>fd = 7, events = POLLIN, revents = 0\<rparr>],
            init_daemon\<lparr>sockets := [7]\<rparr>, [])
   \<and> spec_body \<lparr>ready = (\<lambda>d. if d = 3 then POLLIN else if d = 4 then POLLHUP else 0),
              accepted = 7, incoming = (\<lambda>s. GETNUMKEYS),
              writable = (\<lambda>s. reliable)\<rparr>
     (addPollfd (addPollfd [] 3 POLLIN) 4 POLLHUP) init_daemon
     = Inr (True,
            [\<lparr>fd = 3, events = POLLIN, revents = POLLIN\<rparr>,
             \<lparr>fd = 4, events = POLLHUP, revents = POLLHUP\<rparr>],
            init_daemon, [])
   \<and> run_body \<lparr>ready = (\<lambda>d. if d = 3 then POLLIN else if d = 4 then POLLHUP else 0),
              accepted = 7, incoming = (\<lambda>s. GETNUMKEYS),
              writable = (\<lambda>s. reliable)\<rparr>
     (addPollfd (addPollfd [] 3 POLLIN) 4 POLLHUP) init_daemon
   \<noteq> spec_body \<lparr>ready = (\<lambda>d. if d = 3 then POLLIN else if d = 4 then POLLHUP else 0),
              accepted = 7, incoming = (\<lambda>s. GETNUMKEYS),
              writable = (\<lambda>s. reliable)\<rparr>
     (addPollfd (addPollfd [] 3 POLLIN) 4 POLLHUP) init_daemon"
  by (simp add: run_body_def spec_body_def Let_def addPollfd_def poll_def POLLIN_def POLLHUP_def
      init_daemon_def xor_eq_0)

text \<open>
  C6, amended. In every iteration, after \<open>poll\<close> returns, the loop first looks at the
  listening socket and accepts one connection if it is ready (an event on it other than
  POLLIN ends the thread with an exception), then checks the shutdown signal and leaves
  the loop if it is signaled, without dispatching, and only then dispatches the requests
  of the ready accepted sockets.
\<close>

theorem run_body_order:
  assumes "2 \<le> length fds"
  shows "(ready inp (fd (fds ! 0)) = POLLIN \<and> ready inp (fd (fds ! 1)) = POLLHUP \<longrightarrow>
           run_body inp fds st =
             Inr (True, addPollfd (poll (ready inp) fds) (accepted inp) POLLIN,
                  st\<lparr>sockets := sockets st @ [accepted inp]\<rparr>, []))
       \<and> (ready inp (fd (fds ! 0)) = 0 \<and> ready inp (fd (fds ! 1)) = POLLHUP \<longrightarrow>
           run_body inp fds st = Inr (True, poll (ready inp) fds, st, []))
       \<and> (ready inp (fd (fds ! 0)) = POLLIN \<and> ready inp (fd (fds ! 1)) = 0 \<longrightarrow>
           run_body inp fds st =
             (let q = queryFds (incoming inp) (writable inp) (addPollfd (poll (ready inp) fds) (accepted inp) POLLIN)
                        (st\<lparr>sockets := sockets st @ [accepted inp]\<rparr>)
              in Inr (False, fst q, fst (snd q), snd (snd q))))
       \<and> (ready inp (fd (fds ! 0)) = 0 \<and> ready inp (fd (fds ! 1)) = 0 \<longrightarrow>
           run_body inp fds st =
             (let q = queryFds (incoming inp) (writable inp) (poll (ready inp) fds) st
              in Inr (False, fst q, fst (snd q), snd (snd q))))
       \<and> (ready inp (fd (fds ! 0)) \<noteq> 0 \<and> ready inp (fd (fds ! 0)) \<noteq> POLLIN \<longrightarrow>
           run_body inp fds st = Inl system_error)"
proof -
  from assms have l: "0 < length fds" "Suc 0 < length fds"
    by linarith+
  have r: "revents (poll (ready inp) fds ! 0) = ready inp (fd (fds ! 0))"
    "revents (poll (ready inp) fds ! Suc 0) = ready inp (fd (fds ! Suc 0))"
    using l by simp_all
  show ?thesis
    using l by (simp add: run_body_def Let_def addPollfd_def nth_append r xor_eq_0 POLLIN_def POLLHUP_def)
qed

theorem run_body_order_witness:
  "2 \<le> length (addPollfd (addPollfd [] 3 POLLIN) 4 POLLHUP)
   \<and> run_body \<lparr>ready = (\<lambda>d. if d = 3 then POLLIN else if d = 4 then POLLHUP else 0),
              accepted = 7, incoming = (\<lambda>s. GETNUMKEYS),
              writable = (\<lambda>s. reliable)\<rparr>
        (addPollfd (addPollfd [] 3 POLLIN) 4 POLLHUP) init_daemon
      = Inr (True,
             [\<lparr>fd = 3, events = POLLIN, revents = POLLIN\<rparr>,
              \<lparr>fd = 4, events = POLLHUP, revents = POLLHUP\<rparr>,
              \<lparr>fd = 7, events = POLLIN, revents = 0\<rparr>],
             init_daemon\<lparr>sockets := [7]\<rparr>, [])"
proof -
  let ?inp = "\<lparr>ready = (\<lambda>d. if d = 3 then POLLIN else if d = 4 then POLLHUP else 0),
              accepted = 7, incoming = (\<lambda>s. GETNUMKEYS),
              writable = (\<lambda>s. reliable)\<rparr>"
  let ?fds = "addPollfd (addPollfd [] 3 POLLIN) 4 POLLHUP"
  have a: "2 \<le> length ?fds"
    by (simp add: addPollfd_def)
  have b: "ready ?inp (fd (?fds ! 0)) = POLLIN \<and> ready ?inp (fd (?fds ! 1)) = POLLHUP"
    by (simp add: addPollfd_def)
  from run_body_order [OF a, where inp = ?inp and st = init_daemon, THEN conjunct1,
      rule_format, OF b] a
  show ?thesis
    by (simp add: addPollfd_def poll_def init_daemon_def)
qed

subsection \<open>Scrubbing a dead socket\<close>

lemma bucket_upd [simp]: "bucket (m(k \<mapsto> v)) k' = (if k' = k then v else bucket m k')"
  by (simp add: bucket_def)

lemma bucket_del [simp]: "bucket (m(k := None)) k' = (if k' = k then [] else bucket m k')"
  by (simp add: bucket_def)

lemma awaited_upd [simp]: "awaited (m(s \<mapsto> n)) t = (if t = s then n else awaited m t)"
  by (simp add: awaited_def)

lemma awaited_del [simp]: "awaited (m(s := None)) t = (if t = s then 0 else awaited m t)"
  by (simp add: awaited_def)

lemma wakeup_normal:
  "wakeupWaitingClients k io st =
     and_then (wakeup_loop (bucket (waitingSockets st) k) io st)
       (\<lambda>io1 st1. ok io1 (st1\<lparr>waitingSockets := (waitingSockets st1)(k := None)\<rparr>))"
proof (cases "waitingSockets st k")
  case None
  then have "(waitingSockets st)(k := None) = waitingSockets st"
    by (simp add: fun_upd_idem)
  with None show ?thesis
    by (simp add: wakeupWaitingClients_def bucket_def)
next
  case (Some l)
  then show ?thesis
    by (simp add: wakeupWaitingClients_def bucket_def)
qed

lemma wait_loop_bucket:
  "bucket (fst (wait_loop t store keys acc)) k
     = bucket (fst acc) k @ replicate (count_list (pending store keys) k) t"
proof (induction keys arbitrary: acc)
  case Nil
  then show ?case by (simp add: pending_def)
next
  case (Cons key keys)
  then show ?case
    by (simp add: pending_def replicate_app_Cons_same del: fun_upd_apply)
qed

lemma wait_loop_count:
  "snd (wait_loop t store keys acc) = snd acc + int (length (pending store keys))"
  by (induction keys arbitrary: acc) (simp_all add: pending_def)

lemma visible_append [simp]: "visible X (xs @ ys) = visible X xs @ visible X ys"
  by (simp add: visible_def)

lemma visible_empty [simp]: "visible {} ev = ev"
  by (simp add: visible_def)

lemma visible_Nil [simp]: "visible X [] = []"
  by (simp add: visible_def)

lemma alike_refl [simp]: "alike X a a"
  by (simp add: alike_def)

lemma alike_sym: "alike X a b \<Longrightarrow> alike X b a"
  by (simp add: alike_def)

lemma alike_trans: "alike X a b \<Longrightarrow> alike X b c \<Longrightarrow> alike X a c"
  by (simp add: alike_def)

lemma alike_tcpStore: "alike X a b \<Longrightarrow> tcpStore a = tcpStore b"
  by (simp add: alike_def)

lemma alike_tcpStore_update:
  "alike X a b \<Longrightarrow> alike X (a\<lparr>tcpStore := m\<rparr>) (b\<lparr>tcpStore := m\<rparr>)"
  by (simp add: alike_def)

lemma end_alike_sym: "end_alike X p q \<Longrightarrow> end_alike X q p"
  by (auto simp: end_alike_def alike_sym)

lemma end_alike_trans: "end_alike X p q \<Longrightarrow> end_alike X q r \<Longrightarrow> end_alike X p r"
  by (auto simp: end_alike_def intro: alike_trans)

lemma end_alike_unseen:
  "end_alike X p q \<Longrightarrow> x \<in> X \<Longrightarrow> end_alike X (p\<lparr>written := Send x w # written p\<rparr>) q"
  by (auto simp: end_alike_def visible_def)

lemma end_alike_ok:
  "alike X a b \<Longrightarrow> \<forall>x \<in> X. io x = \<infinity> \<Longrightarrow> end_alike X (ok io a) (ok io b)"
  by (simp add: end_alike_def)

lemma end_alike_throw:
  "alike X a b \<Longrightarrow> \<forall>x \<in> X. io x = \<infinity> \<Longrightarrow> end_alike X (throw e io a) (throw e io b)"
  by (simp add: end_alike_def)

lemma end_alike_send:
  "alike X a b \<Longrightarrow> \<forall>x \<in> X. io x = \<infinity> \<Longrightarrow> end_alike X (send t w io a) (send t w io b)"
  by (simp add: end_alike_def send_def visible_def)

lemma end_alike_and_then:
  assumes "end_alike X p q"
    and "\<And>io a b. alike X a b \<Longrightarrow> \<forall>x \<in> X. io x = \<infinity> \<Longrightarrow> end_alike X (f io a) (g io b)"
  shows "end_alike X (and_then p f) (and_then q g)"
proof (cases "raised p")
  case None
  from assms(1) have e: "alike X (state p) (state q)" "budget q = budget p"
    "\<forall>x \<in> X. budget p x = \<infinity>" "raised q = None"
    "visible X (written p) = visible X (written q)"
    using None by (auto simp: end_alike_def)
  from assms(2) [OF e(1) e(3)] e None show ?thesis
    by (auto simp: and_then_returned end_alike_def)
next
  case (Some err)
  with assms(1) have "raised q = Some err"
    by (simp add: end_alike_def)
  with Some assms(1) show ?thesis
    by (simp add: and_then_raised)
qed

lemma wakeup_loop_Cons:
  "wakeup_loop (s # ss) io st =
     and_then
       (if awaited (keysAwaited st) s - 1 = 0
        then send s (WaitResponse STOP_WAITING) io
               (st\<lparr>keysAwaited := (keysAwaited st)(s \<mapsto> awaited (keysAwaited st) s - 1)\<rparr>)
        else ok io (st\<lparr>keysAwaited := (keysAwaited st)(s \<mapsto> awaited (keysAwaited st) s - 1)\<rparr>))
       (wakeup_loop ss)"
  by (simp add: Let_def)

lemma wakeup_loop_alike:
  "alike X a b \<Longrightarrow> \<forall>x \<in> X. io x = \<infinity> \<Longrightarrow>
   end_alike X (wakeup_loop l io a) (wakeup_loop (filter (\<lambda>x. x \<notin> X) l) io b)"
proof (induction l arbitrary: io a b)
  case Nil
  then show ?case by (simp add: end_alike_ok)
next
  case (Cons x l)
  let ?a1 = "a\<lparr>keysAwaited := (keysAwaited a)(x \<mapsto> awaited (keysAwaited a) x - 1)\<rparr>"
  show ?case
  proof (cases "x \<in> X")
    case True
    have al: "alike X ?a1 b"
      using Cons.prems(1) True by (auto simp: alike_def)
    from True Cons.prems(2) have u: "io x = \<infinity>"
      by simp
    note ih = Cons.IH [OF al Cons.prems(2)]
    have eq: "wakeup_loop (x # l) io a =
        (if awaited (keysAwaited a) x - 1 = 0
         then (wakeup_loop l io ?a1)
                \<lparr>written := Send x (WaitResponse STOP_WAITING) # written (wakeup_loop l io ?a1)\<rparr>
         else wakeup_loop l io ?a1)"
      using u by (simp add: Let_def send_unlimited and_then_returned)
    have f: "filter (\<lambda>x. x \<notin> X) (x # l) = filter (\<lambda>x. x \<notin> X) l"
      using True by simp
    show ?thesis
    proof (cases "awaited (keysAwaited a) x - 1 = 0")
      case z: True
      show ?thesis
        unfolding eq f if_P [OF z] by (rule end_alike_unseen [OF ih True])
    next
      case nz: False
      show ?thesis
        unfolding eq f if_not_P [OF nz] by (rule ih)
    qed
  next
    case False
    let ?a2 = "a\<lparr>keysAwaited := (keysAwaited a)(x \<mapsto> awaited (keysAwaited b) x - 1)\<rparr>"
    let ?b1 = "b\<lparr>keysAwaited := (keysAwaited b)(x \<mapsto> awaited (keysAwaited b) x - 1)\<rparr>"
    from Cons.prems(1) False have n: "awaited (keysAwaited a) x = awaited (keysAwaited b) x"
      by (simp add: alike_def)
    have al: "alike X ?a2 ?b1"
      using Cons.prems(1) by (simp add: alike_def)
    let ?p = "if awaited (keysAwaited b) x - 1 = 0
              then send x (WaitResponse STOP_WAITING) io ?a2 else ok io ?a2"
    let ?q = "if awaited (keysAwaited b) x - 1 = 0
              then send x (WaitResponse STOP_WAITING) io ?b1 else ok io ?b1"
    have pq: "end_alike X ?p ?q"
    proof (cases "awaited (keysAwaited b) x - 1 = 0")
      case z: True
      show ?thesis
        unfolding if_P [OF z] by (rule end_alike_send [OF al Cons.prems(2)])
    next
      case nz: False
      show ?thesis
        unfolding if_not_P [OF nz] by (rule end_alike_ok [OF al Cons.prems(2)])
    qed
    have f: "filter (\<lambda>x. x \<notin> X) (x # l) = x # filter (\<lambda>x. x \<notin> X) l"
      using False by simp
    have eqa: "wakeup_loop (x # l) io a = and_then ?p (wakeup_loop l)"
      unfolding wakeup_loop_Cons n by (rule refl)
    have eqb: "wakeup_loop (filter (\<lambda>x. x \<notin> X) (x # l)) io b
        = and_then ?q (wakeup_loop (filter (\<lambda>x. x \<notin> X) l))"
      unfolding f wakeup_loop_Cons by (rule refl)
    show ?thesis
      unfolding eqa eqb using pq by (rule end_alike_and_then) (rule Cons.IH)
  qed
qed

lemma wakeup_loop_alike2:
  assumes "alike X a b" and "\<forall>x \<in> X. io x = \<infinity>"
    and "filter (\<lambda>x. x \<notin> X) la = filter (\<lambda>x. x \<notin> X) lb"
  shows "end_alike X (wakeup_loop la io a) (wakeup_loop lb io b)"
proof -
  note 1 = wakeup_loop_alike [OF assms(1,2), of la]
  note 2 = wakeup_loop_alike [OF alike_refl assms(2), of lb b]
  from end_alike_trans [OF 1] end_alike_sym [OF 2] assms(3) show ?thesis
    by simp
qed

lemma alike_wakeup:
  assumes "alike X a b" and "\<forall>x \<in> X. io x = \<infinity>"
  shows "end_alike X (wakeupWaitingClients k io a) (wakeupWaitingClients k io b)"
proof -
  from assms(1) have f: "filter (\<lambda>x. x \<notin> X) (bucket (waitingSockets a) k)
              = filter (\<lambda>x. x \<notin> X) (bucket (waitingSockets b) k)"
    by (simp add: alike_def)
  have e: "alike X c d \<Longrightarrow>
      alike X (c\<lparr>waitingSockets := (waitingSockets c)(k := None)\<rparr>)
              (d\<lparr>waitingSockets := (waitingSockets d)(k := None)\<rparr>)" for c d
    by (simp add: alike_def)
  show ?thesis
    unfolding wakeup_normal
    by (rule end_alike_and_then [OF wakeup_loop_alike2 [OF assms f]]) (simp add: end_alike_ok e)
qed

lemma sends_alike:
  "alike X a b \<Longrightarrow> \<forall>x \<in> X. io x = \<infinity> \<Longrightarrow>
   end_alike X (sends xs io a) (sends (filter (\<lambda>tw. fst tw \<notin> X) xs) io b)"
proof (induction xs arbitrary: io a b)
  case Nil
  then show ?case by (simp add: end_alike_ok)
next
  case (Cons x xs)
  show ?case
  proof (cases "fst x \<in> X")
    case True
    with Cons.prems(2) have u: "io (fst x) = \<infinity>"
      by simp
    note ih = Cons.IH [OF Cons.prems]
    have eq: "sends (x # xs) io a
        = (sends xs io a)\<lparr>written := Send (fst x) (snd x) # written (sends xs io a)\<rparr>"
      using u by (simp add: send_unlimited and_then_returned)
    have f: "filter (\<lambda>tw. fst tw \<notin> X) (x # xs) = filter (\<lambda>tw. fst tw \<notin> X) xs"
      using True by simp
    show ?thesis
      unfolding eq f using end_alike_unseen [OF ih True] by simp
  next
    case False
    have pq: "end_alike X (send (fst x) (snd x) io a) (send (fst x) (snd x) io b)"
      using Cons.prems by (rule end_alike_send)
    have "end_alike X (and_then (send (fst x) (snd x) io a) (sends xs))
            (and_then (send (fst x) (snd x) io b) (sends (filter (\<lambda>tw. fst tw \<notin> X) xs)))"
      using pq by (rule end_alike_and_then) (rule Cons.IH)
    with False show ?thesis
      by simp
  qed
qed

lemma sends_alike2:
  assumes "alike X a b" and "\<forall>x \<in> X. io x = \<infinity>"
    and "filter (\<lambda>tw. fst tw \<notin> X) xa = filter (\<lambda>tw. fst tw \<notin> X) xb"
  shows "end_alike X (sends xa io a) (sends xb io b)"
proof -
  note 1 = sends_alike [OF assms(1,2), of xa]
  note 2 = sends_alike [OF alike_refl assms(2), of xb b]
  from end_alike_trans [OF 1] end_alike_sym [OF 2] assms(3) show ?thesis
    by simp
qed

lemma frames_filter:
  "filter (\<lambda>tw. fst tw \<notin> X) (frames k old new ws) = frames k old new (filter (\<lambda>x. x \<notin> X) ws)"
  by (induction ws) (simp_all add: frames_def frame_def)

lemma alike_sendKeyUpdates:
  assumes "alike X a b" and "\<forall>x \<in> X. io x = \<infinity>"
  shows "end_alike X (sendKeyUpdatesToClients k old new io a)
           (sendKeyUpdatesToClients k old new io b)"
proof -
  from assms(1) have f: "filter (\<lambda>x. x \<notin> X) (bucket (watchedSockets a) k)
              = filter (\<lambda>x. x \<notin> X) (bucket (watchedSockets b) k)"
    by (simp add: alike_def)
  have al: "alike X (a\<lparr>watchedSockets := (watchedSockets a)(k \<mapsto> bucket (watchedSockets a) k)\<rparr>)
              (b\<lparr>watchedSockets := (watchedSockets b)(k \<mapsto> bucket (watchedSockets b) k)\<rparr>)"
    using assms(1) by (simp add: alike_def)
  show ?thesis
    unfolding sendKeyUpdates_sends
    by (rule sends_alike2 [OF al assms(2)]) (simp add: frames_filter f)
qed

lemma alike_setHandler:
  assumes "alike X a b" and "\<forall>x \<in> X. io x = \<infinity>"
  shows "end_alike X (setHandler t k v io a) (setHandler t k v io b)"
proof -
  have s: "tcpStore a = tcpStore b"
    using assms(1) by (rule alike_tcpStore)
  note 1 = alike_tcpStore_update [OF assms(1), of "(tcpStore b)(k \<mapsto> v)"]
  note 2 = alike_wakeup [OF 1 assms(2), of k]
  have "end_alike X
      (and_then (wakeupWaitingClients k io (a\<lparr>tcpStore := (tcpStore b)(k \<mapsto> v)\<rparr>))
         (sendKeyUpdatesToClients k (case tcpStore b k of None \<Rightarrow> [] | Some v \<Rightarrow> v) v))
      (and_then (wakeupWaitingClients k io (b\<lparr>tcpStore := (tcpStore b)(k \<mapsto> v)\<rparr>))
         (sendKeyUpdatesToClients k (case tcpStore b k of None \<Rightarrow> [] | Some v \<Rightarrow> v) v))"
    using 2 by (rule end_alike_and_then) (rule alike_sendKeyUpdates)
  then show ?thesis
    by (simp add: setHandler_def Let_def s)
qed

lemma alike_addStore:
  assumes "alike X a b" and "\<forall>x \<in> X. io x = \<infinity>"
  shows "end_alike X (addStore t k n old io a) (addStore t k n old io b)"
proof -
  have s: "tcpStore a = tcpStore b"
    using assms(1) by (rule alike_tcpStore)
  let ?m = "(tcpStore b)(k \<mapsto> to_string n)"
  note 1 = alike_tcpStore_update [OF assms(1), of ?m]
  note 2 = end_alike_send [OF 1 assms(2), of t "WInt64 n"]
  have 3: "end_alike X
      (and_then (send t (WInt64 n) io (a\<lparr>tcpStore := ?m\<rparr>)) (wakeupWaitingClients k))
      (and_then (send t (WInt64 n) io (b\<lparr>tcpStore := ?m\<rparr>)) (wakeupWaitingClients k))"
    using 2 by (rule end_alike_and_then) (rule alike_wakeup)
  have "end_alike X
      (and_then (and_then (send t (WInt64 n) io (a\<lparr>tcpStore := ?m\<rparr>)) (wakeupWaitingClients k))
         (sendKeyUpdatesToClients k old (to_string n)))
      (and_then (and_then (send t (WInt64 n) io (b\<lparr>tcpStore := ?m\<rparr>)) (wakeupWaitingClients k))
         (sendKeyUpdatesToClients k old (to_string n)))"
    using 3 by (rule end_alike_and_then) (rule alike_sendKeyUpdates)
  then show ?thesis
    by (simp add: addStore_def Let_def s)
qed

lemma alike_addHandler:
  assumes "alike X a b" and "\<forall>x \<in> X. io x = \<infinity>"
  shows "end_alike X (addHandler t k d io a) (addHandler t k d io b)"
proof -
  have s: "tcpStore a = tcpStore b"
    using assms(1) by (rule alike_tcpStore)
  show ?thesis
  proof (cases "tcpStore b k")
    case None
    with s show ?thesis
      using alike_addStore [OF assms, of t k d "[]"] by (simp add: addHandler_def)
  next
    case (Some v)
    show ?thesis
    proof (cases "stoll v")
      case (Inl e)
      with s Some show ?thesis
        using end_alike_throw [OF assms, of e] by (simp add: addHandler_def)
    next
      case (Inr n)
      with s Some show ?thesis
        using alike_addStore [OF assms, of t k "d + n" v] by (simp add: addHandler_def)
    qed
  qed
qed

lemma alike_compareSetHandler:
  assumes "alike X a b" and "\<forall>x \<in> X. io x = \<infinity>"
  shows "end_alike X (compareSetHandler t k e d io a) (compareSetHandler t k e d io b)"
proof -
  have s: "tcpStore a = tcpStore b"
    using assms(1) by (rule alike_tcpStore)
  show ?thesis
  proof (cases "tcpStore b k")
    case None
    with s show ?thesis
      using end_alike_send [OF assms] by (simp add: compareSetHandler_def)
  next
    case (Some v)
    show ?thesis
    proof (cases "v = e")
      case False
      with s Some show ?thesis
        using end_alike_send [OF assms] by (simp add: compareSetHandler_def)
    next
      case True
      let ?m = "(tcpStore b)(k \<mapsto> d)"
      note 1 = alike_tcpStore_update [OF assms(1), of ?m]
      note 2 = alike_sendKeyUpdates [OF 1 assms(2), of k e d]
      have "end_alike X
          (and_then (sendKeyUpdatesToClients k e d io (a\<lparr>tcpStore := ?m\<rparr>)) (send t (WVector d)))
          (and_then (sendKeyUpdatesToClients k e d io (b\<lparr>tcpStore := ?m\<rparr>)) (send t (WVector d)))"
        using 2 by (rule end_alike_and_then) (rule end_alike_send)
      with s Some True show ?thesis
        by (simp add: compareSetHandler_def)
    qed
  qed
qed

lemma alike_deleteHandler:
  assumes "alike X a b" and "\<forall>x \<in> X. io x = \<infinity>"
  shows "end_alike X (deleteHandler t k io a) (deleteHandler t k io b)"
proof -
  have s: "tcpStore a = tcpStore b"
    using assms(1) by (rule alike_tcpStore)
  let ?m = "(tcpStore b)(k := None)"
  let ?n = "if tcpStore b k = None then 0 else (1 :: int64)"
  note 1 = alike_tcpStore_update [OF assms(1), of ?m]
  note 2 = end_alike_send [OF 1 assms(2), of t "WInt64 ?n"]
  have e: "alike X c d \<Longrightarrow>
      alike X (c\<lparr>watchedSockets := (watchedSockets c)(k := None)\<rparr>)
              (d\<lparr>watchedSockets := (watchedSockets d)(k := None)\<rparr>)" for c d
    by (simp add: alike_def)
  have "end_alike X
      (and_then (send t (WInt64 ?n) io (a\<lparr>tcpStore := ?m\<rparr>))
         (\<lambda>io1 st1. ok io1 (st1\<lparr>watchedSockets := (watchedSockets st1)(k := None)\<rparr>)))
      (and_then (send t (WInt64 ?n) io (b\<lparr>tcpStore := ?m\<rparr>))
         (\<lambda>io1 st1. ok io1 (st1\<lparr>watchedSockets := (watchedSockets st1)(k := None)\<rparr>)))"
    using 2 by (rule end_alike_and_then) (simp add: end_alike_ok e)
  then show ?thesis
    by (simp add: deleteHandler_def Let_def s)
qed

lemma alike_waitHandler:
  assumes "alike X a b" and "\<forall>x \<in> X. io x = \<infinity>" and "t \<notin> X"
  shows "end_alike X (waitHandler t keys io a) (waitHandler t keys io b)"
proof -
  have s: "tcpStore a = tcpStore b"
    using assms(1) by (rule alike_tcpStore)
  show ?thesis
  proof (cases "checkKeys keys b")
    case True
    with s show ?thesis
      using end_alike_send [OF assms(1,2)] by (simp add: waitHandler_def checkKeys_def)
  next
    case False
    have "alike X
        (a\<lparr>waitingSockets := fst (wait_loop t (tcpStore b) keys (waitingSockets a, 0)),
           keysAwaited := (keysAwaited a)(t \<mapsto> snd (wait_loop t (tcpStore b) keys (waitingSockets a, 0)))\<rparr>)
        (b\<lparr>waitingSockets := fst (wait_loop t (tcpStore b) keys (waitingSockets b, 0)),
           keysAwaited := (keysAwaited b)(t \<mapsto> snd (wait_loop t (tcpStore b) keys (waitingSockets b, 0)))\<rparr>)"
      using assms(1,3) by (simp add: alike_def wait_loop_bucket wait_loop_count)
    from end_alike_ok [OF this assms(2)] False s show ?thesis
      by (simp add: waitHandler_def checkKeys_def Let_def)
  qed
qed

lemma alike_watchHandler:
  assumes "alike X a b" and "\<forall>x \<in> X. io x = \<infinity>" and "t \<notin> X"
  shows "end_alike X (watchHandler t k io a) (watchHandler t k io b)"
proof -
  have "alike X
      (a\<lparr>watchedSockets := (watchedSockets a)(k \<mapsto> bucket (watchedSockets a) k @ [t])\<rparr>)
      (b\<lparr>watchedSockets := (watchedSockets b)(k \<mapsto> bucket (watchedSockets b) k @ [t])\<rparr>)"
    using assms(1,3) by (simp add: alike_def)
  from end_alike_ok [OF this assms(2)] show ?thesis
    by (simp add: watchHandler_def)
qed

lemma alike_query:
  assumes "alike X a b" and "\<forall>x \<in> X. io x = \<infinity>" and "t \<notin> X"
  shows "end_alike X (query t req io a) (query t req io b)"
proof (cases req)
  case (SET k v)
  then show ?thesis using alike_setHandler [OF assms(1,2)] by simp
next
  case (COMPARE_SET k e d)
  then show ?thesis using alike_compareSetHandler [OF assms(1,2)] by simp
next
  case (GET k)
  have s: "tcpStore a = tcpStore b"
    using assms(1) by (rule alike_tcpStore)
  from GET s show ?thesis
    using end_alike_send [OF assms(1,2)] end_alike_throw [OF assms(1,2)]
    by (simp add: getHandler_def split: option.splits)
next
  case (ADD k d)
  then show ?thesis using alike_addHandler [OF assms(1,2)] by simp
next
  case (CHECK ks)
  have s: "tcpStore a = tcpStore b"
    using assms(1) by (rule alike_tcpStore)
  from CHECK s show ?thesis
    using end_alike_send [OF assms(1,2)] by (simp add: checkHandler_def checkKeys_def)
next
  case (WAIT ks)
  then show ?thesis using alike_waitHandler [OF assms] by simp
next
  case GETNUMKEYS
  have s: "tcpStore a = tcpStore b"
    using assms(1) by (rule alike_tcpStore)
  from GETNUMKEYS s show ?thesis
    using end_alike_send [OF assms(1,2)] by (simp add: getNumKeysHandler_def)
next
  case (WATCH_KEY k)
  then show ?thesis using alike_watchHandler [OF assms] by simp
next
  case (DELETE_KEY k)
  then show ?thesis using alike_deleteHandler [OF assms(1,2)] by simp
next
  case BAD_QUERY_TYPE
  then show ?thesis using end_alike_throw [OF assms(1,2)] by simp
next
  case RECV_FAILED
  then show ?thesis using end_alike_throw [OF assms(1,2)] by simp
qed

lemma alike_scrub:
  assumes "alike X a b"
  shows "alike X (scrub t a) (scrub t b)"
proof -
  have c: "\<And>l. filter (\<lambda>x. x \<notin> X) (filter (\<lambda>x. x \<noteq> t) l)
             = filter (\<lambda>x. x \<noteq> t) (filter (\<lambda>x. x \<notin> X) l)"
    by (simp add: conj_commute)
  from assms show ?thesis
    by (simp add: scrub_def alike_def c del: filter_filter)
qed

lemma alike_serve:
  assumes "alike X a b" and "\<forall>x \<in> X. io x = \<infinity>" and "t \<notin> X"
  shows "alike X (fst (serve t req io a)) (fst (serve t req io b))
         \<and> visible X (snd (serve t req io a)) = visible X (snd (serve t req io b))"
proof -
  from alike_query [OF assms, of req]
  have e: "alike X (state (query t req io a)) (state (query t req io b))"
    "visible X (written (query t req io a)) = visible X (written (query t req io b))"
    "raised (query t req io a) = raised (query t req io b)"
    by (simp_all add: end_alike_def)
  show ?thesis
  proof (cases "raised (query t req io b)")
    case None
    with e show ?thesis
      by (simp add: serve_def Let_def)
  next
    case (Some err)
    with e alike_scrub [OF e(1), of t] show ?thesis
      by (simp add: serve_def Let_def)
  qed
qed

lemma alike_serve_all:
  "alike X a b \<Longrightarrow> list_all (\<lambda>sr. fst sr \<notin> X \<and> (\<forall>x \<in> X. snd (snd sr) x = \<infinity>)) srs \<Longrightarrow>
   alike X (fst (serve_all a srs)) (fst (serve_all b srs))
   \<and> visible X (snd (serve_all a srs)) = visible X (snd (serve_all b srs))"
proof (induction srs arbitrary: a b)
  case Nil
  then show ?case by simp
next
  case (Cons sr srs)
  from Cons.prems have t: "fst sr \<notin> X" and u: "\<forall>x \<in> X. snd (snd sr) x = \<infinity>"
    and r: "list_all (\<lambda>sr. fst sr \<notin> X \<and> (\<forall>x \<in> X. snd (snd sr) x = \<infinity>)) srs"
    by simp_all
  note 1 = alike_serve [OF Cons.prems(1) u t, of "fst (snd sr)"]
  note 2 = Cons.IH [OF 1 [THEN conjunct1] r]
  from 1 2 show ?case
    by (simp add: Let_def)
qed

lemma alike_scrub_self: "alike {s} (scrub s st) st"
  by (simp add: alike_def scrub_def)

lemma state_waitHandler:
  "state (waitHandler s keys io st)
     = (if checkKeys keys st then st
        else st\<lparr>waitingSockets := fst (wait_loop s (tcpStore st) keys (waitingSockets st, 0)),
                keysAwaited := (keysAwaited st)
                  (s \<mapsto> snd (wait_loop s (tcpStore st) keys (waitingSockets st, 0)))\<rparr>)"
  by (simp add: waitHandler_def Let_def)

lemma alike_wait_self: "alike {s} (state (waitHandler s keys io st)) st"
  by (simp add: alike_def state_waitHandler wait_loop_bucket)

lemma alike_scrub_wait:
  assumes "unreferenced s st"
  shows "alike {} (scrub s (state (waitHandler s keys io st))) st"
proof -
  have f: "\<And>l. s \<notin> set l \<Longrightarrow> filter (\<lambda>x. x \<noteq> s) l = l"
    by (simp add: filter_id_conv) blast
  from assms show ?thesis
    by (simp add: alike_def unreferenced_def scrub_def state_waitHandler wait_loop_bucket f)
qed

text \<open>
  C7. Socket-death scrubbing. For every state and every socket, the catch block of the
  dispatch loop leaves no overlay referring to the socket: it is taken out of every
  waiting list and every watcher list, the other sockets staying in their order, its
  remaining-count is erased, and no empty list is left in either map; the store is not
  touched. When the handler of a socket raises, whatever it has raised and whatever it
  has changed and written before, the loop closes the socket, scrubs it from the state
  the handler has left, so that no overlay refers to it, and erases it from the poll set
  and the socket list. If a socket that no overlay referred to registers a WAIT and then
  dies, every later sequence of requests, from any sockets and in any environments, is
  answered exactly as if the WAIT had never been registered; and whatever the socket had
  registered before, the later requests of the other sockets are answered the same, as
  far as the other sockets can see, as long as the writes to the socket do not raise.
\<close>

theorem socket_death_scrubbing:
  "(\<forall>k. bucket (waitingSockets (scrub s st)) k = filter (\<lambda>x. x \<noteq> s) (bucket (waitingSockets st) k))
   \<and> (\<forall>k. bucket (watchedSockets (scrub s st)) k = filter (\<lambda>x. x \<noteq> s) (bucket (watchedSockets st) k))
   \<and> (\<forall>k. s \<notin> set (bucket (waitingSockets (scrub s st)) k))
   \<and> (\<forall>k. s \<notin> set (bucket (watchedSockets (scrub s st)) k))
   \<and> keysAwaited (scrub s st) = (keysAwaited st)(s := None)
   \<and> (\<forall>k. waitingSockets (scrub s st) k \<noteq> Some [])
   \<and> (\<forall>k. watchedSockets (scrub s st) k \<noteq> Some [])
   \<and> tcpStore (scrub s st) = tcpStore st
   \<and> (raised (query s req io st) \<noteq> None \<longrightarrow>
        serve s req io st
          = (scrub s (state (query s req io st)), written (query s req io st) @ [Close s])
        \<and> unreferenced s (fst (serve s req io st)))
   \<and> (\<forall>rq wr (fds :: pollfd list) i. i < length fds \<and> revents (fds ! i) \<noteq> 0 \<and> fd (fds ! i) = s
          \<and> raised (query s (rq s) (wr s) st) \<noteq> None \<longrightarrow>
        queryFds_from rq wr i fds st =
          (let r = query s (rq s) (wr s) st;
               q = queryFds_from rq wr i (erase_at i fds)
                     ((scrub s (state r))
                        \<lparr>sockets := erase_at (i - CONNECT_SOCKET_OFFSET) (sockets (state r))\<rparr>)
           in (fst q, fst (snd q), written r @ Close s # snd (snd q))))
   \<and> (unreferenced s st \<longrightarrow>
        snd (serve_all (scrub s (state (waitHandler s keys io st))) srs) = snd (serve_all st srs))
   \<and> (list_all (\<lambda>sr. fst sr \<noteq> s \<and> snd (snd sr) s = \<infinity>) srs \<longrightarrow>
        visible {s} (snd (serve_all (scrub s (state (waitHandler s keys io st))) srs))
          = visible {s} (snd (serve_all st srs)))"
proof (intro conjI allI impI)
  fix k
  show "bucket (waitingSockets (scrub s st)) k = filter (\<lambda>x. x \<noteq> s) (bucket (waitingSockets st) k)"
    by (simp add: scrub_def)
  show "bucket (watchedSockets (scrub s st)) k = filter (\<lambda>x. x \<noteq> s) (bucket (watchedSockets st) k)"
    by (simp add: scrub_def)
  show "s \<notin> set (bucket (waitingSockets (scrub s st)) k)"
    by (simp add: scrub_def)
  show "s \<notin> set (bucket (watchedSockets (scrub s st)) k)"
    by (simp add: scrub_def)
  show "waitingSockets (scrub s st) k \<noteq> Some []"
    by (simp add: scrub_def removeSocket_no_empty)
  show "watchedSockets (scrub s st) k \<noteq> Some []"
    by (simp add: scrub_def removeSocket_no_empty)
next
  show "keysAwaited (scrub s st) = (keysAwaited st)(s := None)"
    by (simp add: scrub_def)
  show "tcpStore (scrub s st) = tcpStore st"
    by (simp add: scrub_def)
next
  assume a: "raised (query s req io st) \<noteq> None"
  then show "serve s req io st
          = (scrub s (state (query s req io st)), written (query s req io st) @ [Close s])"
    by (rule serve_raised)
  then show "unreferenced s (fst (serve s req io st))"
    by (simp add: unreferenced_scrub)
next
  fix rq wr and fds :: "pollfd list" and i
  assume "i < length fds \<and> revents (fds ! i) \<noteq> 0 \<and> fd (fds ! i) = s
          \<and> raised (query s (rq s) (wr s) st) \<noteq> None"
  then show "queryFds_from rq wr i fds st =
          (let r = query s (rq s) (wr s) st;
               q = queryFds_from rq wr i (erase_at i fds)
                     ((scrub s (state r))
                        \<lparr>sockets := erase_at (i - CONNECT_SOCKET_OFFSET) (sockets (state r))\<rparr>)
           in (fst q, fst (snd q), written r @ Close s # snd (snd q)))"
    by (subst queryFds_from.simps) (auto simp: Let_def)
next
  assume "unreferenced s st"
  then have "alike {} (scrub s (state (waitHandler s keys io st))) st"
    by (rule alike_scrub_wait)
  moreover have "list_all (\<lambda>sr. fst sr \<notin> {} \<and> (\<forall>x \<in> {}. snd (snd sr) x = \<infinity>)) srs"
    by (simp add: list_all_iff)
  ultimately show "snd (serve_all (scrub s (state (waitHandler s keys io st))) srs)
      = snd (serve_all st srs)"
    using alike_serve_all [of "{}" "scrub s (state (waitHandler s keys io st))" st srs] by simp
next
  assume a: "list_all (\<lambda>sr. fst sr \<noteq> s \<and> snd (snd sr) s = \<infinity>) srs"
  have "alike {s} (scrub s (state (waitHandler s keys io st))) (state (waitHandler s keys io st))"
    by (rule alike_scrub_self)
  moreover have "alike {s} (state (waitHandler s keys io st)) st"
    by (rule alike_wait_self)
  ultimately have "alike {s} (scrub s (state (waitHandler s keys io st))) st"
    by (rule alike_trans)
  from alike_serve_all [OF this, of srs] a
  show "visible {s} (snd (serve_all (scrub s (state (waitHandler s keys io st))) srs))
          = visible {s} (snd (serve_all st srs))"
    by simp
qed

theorem socket_death_scrubbing_witness:
  "raised (query 5 RECV_FAILED reliable (state (waitHandler 5 [''/k''] reliable init_daemon))) \<noteq> None
   \<and> serve 5 RECV_FAILED reliable (state (waitHandler 5 [''/k''] reliable init_daemon))
       = (scrub 5 (state (waitHandler 5 [''/k''] reliable init_daemon)), [Close 5])
   \<and> waitingSockets (state (waitHandler 5 [''/k''] reliable init_daemon)) ''/k'' = Some [5]
   \<and> scrub 5 (state (waitHandler 5 [''/k''] reliable init_daemon)) = init_daemon
   \<and> raised (query 6 (SET ''/k'' [1]) (reliable(5 := 0))
        (state (waitHandler 5 [''/k''] reliable init_daemon))) \<noteq> None
   \<and> unreferenced 6 (fst (serve 6 (SET ''/k'' [1]) (reliable(5 := 0))
        (state (waitHandler 5 [''/k''] reliable init_daemon))))
   \<and> unreferenced 5 init_daemon
   \<and> snd (serve_all (scrub 5 (state (waitHandler 5 [''/k''] reliable init_daemon)))
             [(6, WAIT [''/k''], reliable), (7, SET ''/k'' [1], reliable)])
       = snd (serve_all init_daemon [(6, WAIT [''/k''], reliable), (7, SET ''/k'' [1], reliable)])
   \<and> snd (serve_all init_daemon [(6, WAIT [''/k''], reliable), (7, SET ''/k'' [1], reliable)])
       = [Send 6 (WaitResponse STOP_WAITING)]
   \<and> list_all (\<lambda>sr. fst sr \<noteq> 5 \<and> snd (snd sr) 5 = \<infinity>)
        [(6 :: socket, WAIT [''/k''], reliable), (7, SET ''/k'' [1], reliable)]
   \<and> visible {5} (snd (serve_all (scrub 5 (state (waitHandler 5 [''/k''] reliable init_daemon)))
             [(6, WAIT [''/k''], reliable), (7, SET ''/k'' [1], reliable)]))
       = visible {5} (snd (serve_all init_daemon
             [(6, WAIT [''/k''], reliable), (7, SET ''/k'' [1], reliable)]))"
proof -
  let ?st1 = "state (waitHandler 5 [''/k''] reliable init_daemon)"
  let ?srs = "[(6 :: socket, WAIT [''/k''], reliable), (7, SET ''/k'' [1], reliable)]"
  let ?io = "reliable(5 := 0)"
  note t = socket_death_scrubbing [where s = 5 and st = ?st1 and req = RECV_FAILED
      and io = reliable and keys = "[]" and srs = "[]"]
  note v = socket_death_scrubbing [where s = 6 and st = ?st1 and req = "SET ''/k'' [1]"
      and io = ?io and keys = "[]" and srs = "[]"]
  note u = socket_death_scrubbing [where s = 5 and st = init_daemon and keys = "[''/k'']"
      and io = reliable and srs = ?srs]
  have q: "raised (query 5 RECV_FAILED reliable ?st1) \<noteq> None"
    by simp
  have 1: "serve 5 RECV_FAILED reliable ?st1 = (scrub 5 ?st1, [Close 5])"
    using t [THEN conjunct2, THEN conjunct2, THEN conjunct2, THEN conjunct2, THEN conjunct2,
        THEN conjunct2, THEN conjunct2, THEN conjunct2, THEN conjunct1, rule_format, OF q,
        THEN conjunct1]
    by simp
  have w: "waitingSockets ?st1 ''/k'' = Some [5]"
    by (simp add: run_defs)
  have 2: "scrub 5 ?st1 = init_daemon"
    by (simp add: run_defs scrub_def removeSocket_def fun_eq_iff)
  have r: "raised (query 6 (SET ''/k'' [1]) ?io ?st1) \<noteq> None"
    by (simp add: run_defs)
  have 3: "unreferenced 6 (fst (serve 6 (SET ''/k'' [1]) ?io ?st1))"
    using v [THEN conjunct2, THEN conjunct2, THEN conjunct2, THEN conjunct2, THEN conjunct2,
        THEN conjunct2, THEN conjunct2, THEN conjunct2, THEN conjunct1, rule_format, OF r,
        THEN conjunct2] .
  have 4: "unreferenced 5 init_daemon"
    by (simp add: unreferenced_def init_daemon_def bucket_def awaited_def)
  have 5: "snd (serve_all (scrub 5 ?st1) ?srs) = snd (serve_all init_daemon ?srs)"
    using u [THEN conjunct2, THEN conjunct2, THEN conjunct2, THEN conjunct2, THEN conjunct2,
        THEN conjunct2, THEN conjunct2, THEN conjunct2, THEN conjunct2, THEN conjunct2,
        THEN conjunct1, rule_format, OF 4] .
  have 6: "snd (serve_all init_daemon ?srs) = [Send 6 (WaitResponse STOP_WAITING)]"
    by (simp add: run_defs)
  have 7: "list_all (\<lambda>sr. fst sr \<noteq> 5 \<and> snd (snd sr) 5 = \<infinity>) ?srs"
    by simp
  have 8: "visible {5} (snd (serve_all (scrub 5 ?st1) ?srs))
       = visible {5} (snd (serve_all init_daemon ?srs))"
    using u [THEN conjunct2, THEN conjunct2, THEN conjunct2, THEN conjunct2, THEN conjunct2,
        THEN conjunct2, THEN conjunct2, THEN conjunct2, THEN conjunct2, THEN conjunct2,
        THEN conjunct2, rule_format, OF 7] .
  from q 1 w 2 r 3 4 5 6 7 8 show ?thesis
    by (intro conjI)
qed

subsection \<open>The wait record\<close>

lemma bucket_outside_dom: "k \<notin> dom m \<Longrightarrow> bucket m k = []"
  by (auto simp: bucket_def split: option.splits)







lemma occurrences_zero_iff:
  assumes "finite (dom m)"
  shows "occurrences s m = 0 \<longleftrightarrow> (\<forall>k. s \<notin> set (bucket m k))"
proof
  assume z: "occurrences s m = 0"
  show "\<forall>k. s \<notin> set (bucket m k)"
  proof
    fix k
    show "s \<notin> set (bucket m k)"
    proof (cases "k \<in> dom m")
      case True
      with z assms have "count_list (bucket m k) s = 0"
        by (simp add: occurrences_def)
      then show ?thesis by (simp add: count_list_0_iff)
    next
      case False
      then show ?thesis by (simp add: bucket_outside_dom)
    qed
  qed
next
  assume "\<forall>k. s \<notin> set (bucket m k)"
  then show "occurrences s m = 0"
    by (simp add: occurrences_def count_list_0_iff)
qed







lemma count_list_append [simp]: "count_list (xs @ ys) a = count_list xs a + count_list ys a"
  by (induction xs) simp_all

lemma count_stop_sent:
  "\<forall>tw \<in> set xs. snd tw \<noteq> WaitResponse STOP_WAITING \<Longrightarrow>
   count_list (as_events (sent io xs)) (Send s (WaitResponse STOP_WAITING)) = 0"
  by (induction xs arbitrary: io) (simp_all add: as_events_def)

lemma count_stop_sendKeyUpdates [simp]:
  "count_list (written (sendKeyUpdatesToClients k old new io st))
     (Send s (WaitResponse STOP_WAITING)) = 0"
proof -
  have "\<forall>tw \<in> set (frames k old new ws). snd tw \<noteq> WaitResponse STOP_WAITING" for ws
    by (auto simp: frames_def frame_def)
  then show ?thesis
    by (simp add: sendKeyUpdates_sends sends_fields count_stop_sent)
qed

lemma wait_invariant_tcpStore [simp]: "wait_invariant (st\<lparr>tcpStore := m\<rparr>) = wait_invariant st"
  by (simp add: wait_invariant_def)

lemma wait_invariant_watchedSockets [simp]:
  "wait_invariant (st\<lparr>watchedSockets := m\<rparr>) = wait_invariant st"
  by (simp add: wait_invariant_def)

lemma wait_invariant_sockets [simp]: "wait_invariant (st\<lparr>sockets := ss\<rparr>) = wait_invariant st"
  by (simp add: wait_invariant_def)


lemma waiters_writable_tcpStore [simp]:
  "waiters_writable io (st\<lparr>tcpStore := m\<rparr>) = waiters_writable io st"
  by (simp add: waiters_writable_def)

lemma waiters_writable_sockets [simp]:
  "waiters_writable io (st\<lparr>sockets := m\<rparr>) = waiters_writable io st"
  by (simp add: waiters_writable_def)




lemma wait_invariant_sendKeyUpdates [simp]:
  "wait_invariant (state (sendKeyUpdatesToClients k old new io st)) = wait_invariant st"
  by (simp add: state_sendKeyUpdates)


























subsection \<open>The dispatch loop serves the ready sockets in order\<close>

text \<open>
  The loop of \<open>queryFds\<close> writes the events that \<open>serve_all\<close> writes for the requests
  of the ready sockets, and ends with the same store and overlays; so the states
  \<open>reachable\<close> describes are the states of the event loop.
\<close>

lemma same_overlays_refl [simp]: "same_overlays st st"
  by (simp add: same_overlays_def)

lemma same_overlays_sockets [simp]: "same_overlays (st\<lparr>sockets := x\<rparr>) st"
  by (simp add: same_overlays_def)

lemma same_overlays_trans: "same_overlays a b \<Longrightarrow> same_overlays b c \<Longrightarrow> same_overlays a c"
  by (simp add: same_overlays_def)

lemma same_overlays_fields:
  assumes "same_overlays a b"
  shows "tcpStore a = tcpStore b" "waitingSockets a = waitingSockets b"
    "keysAwaited a = keysAwaited b" "watchedSockets a = watchedSockets b"
  using assms by (simp_all add: same_overlays_def)

lemma same_overlays_update:
  assumes "same_overlays a b"
  shows "same_overlays (a\<lparr>tcpStore := m\<rparr>) (b\<lparr>tcpStore := m\<rparr>)"
    "same_overlays (a\<lparr>waitingSockets := w\<rparr>) (b\<lparr>waitingSockets := w\<rparr>)"
    "same_overlays (a\<lparr>keysAwaited := c\<rparr>) (b\<lparr>keysAwaited := c\<rparr>)"
    "same_overlays (a\<lparr>watchedSockets := w\<rparr>) (b\<lparr>watchedSockets := w\<rparr>)"
  using assms by (simp_all add: same_overlays_def)

lemma same_end_ok: "same_overlays a b \<Longrightarrow> same_end (ok io a) (ok io b)"
  by (simp add: same_end_def)

lemma same_end_throw: "same_overlays a b \<Longrightarrow> same_end (throw e io a) (throw e io b)"
  by (simp add: same_end_def)

lemma same_end_send: "same_overlays a b \<Longrightarrow> same_end (send t w io a) (send t w io b)"
  by (simp add: same_end_def send_def)

lemma same_end_and_then:
  assumes "same_end p q"
    and "\<And>io a b. same_overlays a b \<Longrightarrow> same_end (f io a) (g io b)"
  shows "same_end (and_then p f) (and_then q g)"
proof (cases "raised p")
  case None
  from assms(1) have e: "same_overlays (state p) (state q)" "budget q = budget p"
    "raised q = None" "written p = written q"
    using None by (auto simp: same_end_def)
  from assms(2) [OF e(1), of "budget p"] e None show ?thesis
    by (auto simp: and_then_returned same_end_def)
next
  case (Some err)
  with assms(1) have "raised q = Some err"
    by (simp add: same_end_def)
  with Some assms(1) show ?thesis
    by (simp add: and_then_raised)
qed

lemma same_overlays_wakeup_loop:
  "same_overlays a b \<Longrightarrow> same_end (wakeup_loop l io a) (wakeup_loop l io b)"
proof (induction l arbitrary: io a b)
  case Nil
  then show ?case by (simp add: same_end_ok)
next
  case (Cons x l)
  let ?c = "(keysAwaited b)(x \<mapsto> awaited (keysAwaited b) x - 1)"
  note f = same_overlays_fields [OF Cons.prems]
  note u = same_overlays_update(3) [OF Cons.prems, of ?c]
  have 1: "same_end
      (if awaited (keysAwaited b) x - 1 = 0
       then send x (WaitResponse STOP_WAITING) io (a\<lparr>keysAwaited := ?c\<rparr>)
       else ok io (a\<lparr>keysAwaited := ?c\<rparr>))
      (if awaited (keysAwaited b) x - 1 = 0
       then send x (WaitResponse STOP_WAITING) io (b\<lparr>keysAwaited := ?c\<rparr>)
       else ok io (b\<lparr>keysAwaited := ?c\<rparr>))"
  proof (cases "awaited (keysAwaited b) x - 1 = 0")
    case True
    show ?thesis
      unfolding if_P [OF True] by (rule same_end_send [OF u])
  next
    case False
    show ?thesis
      unfolding if_not_P [OF False] by (rule same_end_ok [OF u])
  qed
  have "same_end
      (and_then (if awaited (keysAwaited b) x - 1 = 0
       then send x (WaitResponse STOP_WAITING) io (a\<lparr>keysAwaited := ?c\<rparr>)
       else ok io (a\<lparr>keysAwaited := ?c\<rparr>)) (wakeup_loop l))
      (and_then (if awaited (keysAwaited b) x - 1 = 0
       then send x (WaitResponse STOP_WAITING) io (b\<lparr>keysAwaited := ?c\<rparr>)
       else ok io (b\<lparr>keysAwaited := ?c\<rparr>)) (wakeup_loop l))"
    using 1 by (rule same_end_and_then) (rule Cons.IH)
  then show ?case
    unfolding wakeup_loop_Cons f(3) .
qed

lemma same_overlays_wakeup:
  assumes "same_overlays a b"
  shows "same_end (wakeupWaitingClients k io a) (wakeupWaitingClients k io b)"
proof -
  note f = same_overlays_fields [OF assms]
  have "same_end
      (and_then (wakeup_loop (bucket (waitingSockets b) k) io a)
         (\<lambda>io1 st1. ok io1 (st1\<lparr>waitingSockets := (waitingSockets st1)(k := None)\<rparr>)))
      (and_then (wakeup_loop (bucket (waitingSockets b) k) io b)
         (\<lambda>io1 st1. ok io1 (st1\<lparr>waitingSockets := (waitingSockets st1)(k := None)\<rparr>)))"
    using same_overlays_wakeup_loop [OF assms]
    by (rule same_end_and_then) (simp add: same_end_def same_overlays_def)
  then show ?thesis
    unfolding wakeup_normal f(2) .
qed

lemma same_overlays_sends:
  "same_overlays a b \<Longrightarrow> same_end (sends xs io a) (sends xs io b)"
proof (induction xs arbitrary: io a b)
  case Nil
  then show ?case by (simp add: same_end_ok)
next
  case (Cons x xs)
  have "same_end (and_then (send (fst x) (snd x) io a) (sends xs))
          (and_then (send (fst x) (snd x) io b) (sends xs))"
    using same_end_send [OF Cons.prems] by (rule same_end_and_then) (rule Cons.IH)
  then show ?case by simp
qed

lemma same_overlays_sendKeyUpdates:
  assumes "same_overlays a b"
  shows "same_end (sendKeyUpdatesToClients k old new io a) (sendKeyUpdatesToClients k old new io b)"
proof -
  note f = same_overlays_fields [OF assms]
  from same_overlays_sends
    [OF same_overlays_update(4) [OF assms, of "(watchedSockets b)(k \<mapsto> bucket (watchedSockets b) k)"]]
  show ?thesis
    by (simp add: sendKeyUpdates_sends f)
qed

lemma same_overlays_setHandler:
  assumes "same_overlays a b"
  shows "same_end (setHandler t k v io a) (setHandler t k v io b)"
proof -
  note f = same_overlays_fields [OF assms]
  note 1 = same_overlays_update(1) [OF assms, of "(tcpStore b)(k \<mapsto> v)"]
  have "same_end
      (and_then (wakeupWaitingClients k io (a\<lparr>tcpStore := (tcpStore b)(k \<mapsto> v)\<rparr>))
         (sendKeyUpdatesToClients k (case tcpStore b k of None \<Rightarrow> [] | Some v \<Rightarrow> v) v))
      (and_then (wakeupWaitingClients k io (b\<lparr>tcpStore := (tcpStore b)(k \<mapsto> v)\<rparr>))
         (sendKeyUpdatesToClients k (case tcpStore b k of None \<Rightarrow> [] | Some v \<Rightarrow> v) v))"
    using same_overlays_wakeup [OF 1]
    by (rule same_end_and_then) (rule same_overlays_sendKeyUpdates)
  then show ?thesis
    by (simp add: setHandler_def Let_def f)
qed

lemma same_overlays_addStore:
  assumes "same_overlays a b"
  shows "same_end (addStore t k n old io a) (addStore t k n old io b)"
proof -
  note f = same_overlays_fields [OF assms]
  let ?m = "(tcpStore b)(k \<mapsto> to_string n)"
  note 1 = same_overlays_update(1) [OF assms, of ?m]
  have 3: "same_end
      (and_then (send t (WInt64 n) io (a\<lparr>tcpStore := ?m\<rparr>)) (wakeupWaitingClients k))
      (and_then (send t (WInt64 n) io (b\<lparr>tcpStore := ?m\<rparr>)) (wakeupWaitingClients k))"
    using same_end_send [OF 1] by (rule same_end_and_then) (rule same_overlays_wakeup)
  have "same_end
      (and_then (and_then (send t (WInt64 n) io (a\<lparr>tcpStore := ?m\<rparr>)) (wakeupWaitingClients k))
         (sendKeyUpdatesToClients k old (to_string n)))
      (and_then (and_then (send t (WInt64 n) io (b\<lparr>tcpStore := ?m\<rparr>)) (wakeupWaitingClients k))
         (sendKeyUpdatesToClients k old (to_string n)))"
    using 3 by (rule same_end_and_then) (rule same_overlays_sendKeyUpdates)
  then show ?thesis
    by (simp add: addStore_def Let_def f)
qed

lemma same_overlays_addHandler:
  assumes "same_overlays a b"
  shows "same_end (addHandler t k d io a) (addHandler t k d io b)"
proof -
  note f = same_overlays_fields [OF assms]
  show ?thesis
  proof (cases "tcpStore b k")
    case None
    with f show ?thesis
      using same_overlays_addStore [OF assms, of t k d "[]"] by (simp add: addHandler_def)
  next
    case (Some v)
    show ?thesis
    proof (cases "stoll v")
      case (Inl e)
      with f Some show ?thesis
        using same_end_throw [OF assms, of e] by (simp add: addHandler_def)
    next
      case (Inr n)
      with f Some show ?thesis
        using same_overlays_addStore [OF assms, of t k "d + n" v] by (simp add: addHandler_def)
    qed
  qed
qed

lemma same_overlays_compareSetHandler:
  assumes "same_overlays a b"
  shows "same_end (compareSetHandler t k e d io a) (compareSetHandler t k e d io b)"
proof -
  note f = same_overlays_fields [OF assms]
  show ?thesis
  proof (cases "tcpStore b k")
    case None
    with f show ?thesis
      using same_end_send [OF assms] by (simp add: compareSetHandler_def)
  next
    case (Some v)
    show ?thesis
    proof (cases "v = e")
      case False
      with f Some show ?thesis
        using same_end_send [OF assms] by (simp add: compareSetHandler_def)
    next
      case True
      note 1 = same_overlays_update(1) [OF assms, of "(tcpStore b)(k \<mapsto> d)"]
      have "same_end
          (and_then (sendKeyUpdatesToClients k e d io (a\<lparr>tcpStore := (tcpStore b)(k \<mapsto> d)\<rparr>))
             (send t (WVector d)))
          (and_then (sendKeyUpdatesToClients k e d io (b\<lparr>tcpStore := (tcpStore b)(k \<mapsto> d)\<rparr>))
             (send t (WVector d)))"
        using same_overlays_sendKeyUpdates [OF 1]
        by (rule same_end_and_then) (rule same_end_send)
      with f Some True show ?thesis
        by (simp add: compareSetHandler_def)
    qed
  qed
qed

lemma same_overlays_deleteHandler:
  assumes "same_overlays a b"
  shows "same_end (deleteHandler t k io a) (deleteHandler t k io b)"
proof -
  note f = same_overlays_fields [OF assms]
  let ?n = "if tcpStore b k = None then 0 else 1"
  note 1 = same_overlays_update(1) [OF assms, of "(tcpStore b)(k := None)"]
  have "same_end
      (and_then (send t (WInt64 ?n) io (a\<lparr>tcpStore := (tcpStore b)(k := None)\<rparr>))
         (\<lambda>io1 st1. ok io1 (st1\<lparr>watchedSockets := (watchedSockets st1)(k := None)\<rparr>)))
      (and_then (send t (WInt64 ?n) io (b\<lparr>tcpStore := (tcpStore b)(k := None)\<rparr>))
         (\<lambda>io1 st1. ok io1 (st1\<lparr>watchedSockets := (watchedSockets st1)(k := None)\<rparr>)))"
    using same_end_send [OF 1]
    by (rule same_end_and_then) (simp add: same_end_def same_overlays_def)
  then show ?thesis
    by (simp add: deleteHandler_def Let_def f)
qed

lemma same_overlays_query:
  assumes "same_overlays a b"
  shows "same_end (query t req io a) (query t req io b)"
proof (cases req)
  case (SET k v)
  with same_overlays_setHandler [OF assms] show ?thesis by simp
next
  case (COMPARE_SET k e d)
  with same_overlays_compareSetHandler [OF assms] show ?thesis by simp
next
  case (GET k)
  with assms show ?thesis
    by (simp add: getHandler_def same_end_def same_overlays_def send_def split: option.splits)
next
  case (ADD k d)
  with same_overlays_addHandler [OF assms] show ?thesis by simp
next
  case (CHECK ks)
  with assms show ?thesis
    by (simp add: checkHandler_def checkKeys_def same_end_def same_overlays_def send_def)
next
  case (WAIT ks)
  with assms show ?thesis
    by (simp add: waitHandler_def checkKeys_def Let_def same_end_def same_overlays_def send_def)
next
  case GETNUMKEYS
  with assms show ?thesis
    by (simp add: getNumKeysHandler_def same_end_def same_overlays_def send_def)
next
  case (WATCH_KEY k)
  with assms show ?thesis
    by (simp add: watchHandler_def same_end_def same_overlays_def)
next
  case (DELETE_KEY k)
  with same_overlays_deleteHandler [OF assms] show ?thesis by simp
next
  case BAD_QUERY_TYPE
  with assms show ?thesis by (simp add: same_end_throw)
next
  case RECV_FAILED
  with assms show ?thesis by (simp add: same_end_throw)
qed

lemma same_overlays_scrub: "same_overlays a b \<Longrightarrow> same_overlays (scrub t a) (scrub t b)"
  by (simp add: same_overlays_def scrub_def)

lemma same_overlays_serve:
  assumes "same_overlays a b"
  shows "same_overlays (fst (serve t req io a)) (fst (serve t req io b))
         \<and> snd (serve t req io a) = snd (serve t req io b)"
proof -
  from same_overlays_query [OF assms, of t req io]
  have e: "same_overlays (state (query t req io a)) (state (query t req io b))"
    "written (query t req io a) = written (query t req io b)"
    "raised (query t req io a) = raised (query t req io b)"
    by (simp_all add: same_end_def)
  show ?thesis
  proof (cases "raised (query t req io b)")
    case None
    with e show ?thesis
      by (simp add: serve_def Let_def)
  next
    case (Some err)
    with e same_overlays_scrub [OF e(1), of t] show ?thesis
      by (simp add: serve_def Let_def)
  qed
qed

lemma same_overlays_serve_all:
  "same_overlays a b \<Longrightarrow>
   same_overlays (fst (serve_all a srs)) (fst (serve_all b srs))
   \<and> snd (serve_all a srs) = snd (serve_all b srs)"
proof (induction srs arbitrary: a b)
  case Nil
  then show ?case by simp
next
  case (Cons sr srs)
  note 1 = same_overlays_serve [OF Cons.prems, of "fst sr" "fst (snd sr)" "snd (snd sr)"]
  note 2 = Cons.IH [OF 1 [THEN conjunct1]]
  from 1 2 show ?case by (simp add: Let_def)
qed

lemma ready_requests_skip:
  "i < length fds \<Longrightarrow> revents (fds ! i) = 0 \<Longrightarrow>
   ready_requests rq wr i fds = ready_requests rq wr (i + 1) fds"
  by (simp add: ready_requests_def Cons_nth_drop_Suc [symmetric])

lemma ready_requests_take:
  "i < length fds \<Longrightarrow> revents (fds ! i) \<noteq> 0 \<Longrightarrow>
   ready_requests rq wr i fds
     = (fd (fds ! i), rq (fd (fds ! i)), wr (fd (fds ! i))) # ready_requests rq wr (i + 1) fds"
  by (simp add: ready_requests_def Cons_nth_drop_Suc [symmetric])

lemma ready_requests_erase:
  "i < length fds \<Longrightarrow> ready_requests rq wr i (erase_at i fds) = ready_requests rq wr (i + 1) fds"
  by (simp add: ready_requests_def erase_at_def)

lemma ready_requests_end: "\<not> i < length fds \<Longrightarrow> ready_requests rq wr i fds = []"
  by (simp add: ready_requests_def)

lemma queryFds_from_serve_all:
  "snd (snd (queryFds_from rq wr i fds st)) = snd (serve_all st (ready_requests rq wr i fds))
   \<and> same_overlays (fst (snd (queryFds_from rq wr i fds st)))
        (fst (serve_all st (ready_requests rq wr i fds)))"
proof (induction rq wr i fds st rule: queryFds_from.induct)
  case (1 rq wr i fds st)
  show ?case
  proof (cases "i < length fds")
    case False
    then show ?thesis
      by (subst (1 2) queryFds_from.simps) (simp add: ready_requests_end)
  next
    case l: True
    show ?thesis
    proof (cases "revents (fds ! i) = 0")
      case True
      with l "1.IH"(1) show ?thesis
        by (subst (1 2) queryFds_from.simps) (simp add: ready_requests_skip)
    next
      case r: False
      let ?s = "fd (fds ! i)"
      let ?r = "query ?s (rq ?s) (wr ?s) st"
      show ?thesis
      proof (cases "raised ?r")
        case None
        then have sv: "serve ?s (rq ?s) (wr ?s) st = (state ?r, written ?r)"
          by (simp add: serve_def Let_def)
        from "1.IH"(2) [OF l r refl None] l r None sv show ?thesis
          by (subst (1 2) queryFds_from.simps) (simp add: ready_requests_take Let_def)
      next
        case (Some e)
        then have sv: "serve ?s (rq ?s) (wr ?s) st = (scrub ?s (state ?r), written ?r @ [Close ?s])"
          by (simp add: serve_def Let_def)
        let ?st' = "(scrub ?s (state ?r))
                      \<lparr>sockets := erase_at (i - CONNECT_SOCKET_OFFSET) (sockets (state ?r))\<rparr>"
        let ?rs = "ready_requests rq wr (i + 1) fds"
        note ih = "1.IH"(3) [OF l r refl Some refl]
        have so: "same_overlays ?st' (scrub ?s (state ?r))"
          by simp
        note sa = same_overlays_serve_all [OF so, of ?rs]
        from ih have e1: "snd (snd (queryFds_from rq wr i (erase_at i fds) ?st'))
            = snd (serve_all (scrub ?s (state ?r)) ?rs)"
          using sa l by (simp add: ready_requests_erase)
        from ih have e2: "same_overlays (fst (snd (queryFds_from rq wr i (erase_at i fds) ?st')))
            (fst (serve_all (scrub ?s (state ?r)) ?rs))"
          using sa l same_overlays_trans by (simp add: ready_requests_erase) blast
        from e1 e2 l r Some sv show ?thesis
          by (subst (1 2) queryFds_from.simps) (simp add: ready_requests_take Let_def)
      qed
    qed
  qed
qed

lemma same_overlays_eq: "same_overlays a b \<Longrightarrow> a = b\<lparr>sockets := sockets a\<rparr>"
  by (cases a, cases b) (simp add: same_overlays_def)

lemma same_overlays_reachable: "same_overlays a b \<Longrightarrow> reachable b \<Longrightarrow> reachable a"
  using same_overlays_eq [of a b] reachable.connection [of b "sockets a"] by simp

lemma same_overlays_disciplined:
  "same_overlays a b \<Longrightarrow> disciplined a srs = disciplined b srs"
proof (induction srs arbitrary: a b)
  case Nil
  then show ?case by simp
next
  case (Cons sr srs)
  from Cons.prems have w: "waitingSockets a = waitingSockets b"
    by (simp add: same_overlays_def)
  note 1 = same_overlays_serve [OF Cons.prems, of "fst sr" "fst (snd sr)" "snd (snd sr)",
      THEN conjunct1]
  from Cons.IH [OF 1] w show ?case
    by (simp add: waiters_writable_def split: request.splits)
qed

lemma reachable_serve_all:
  "reachable st \<Longrightarrow> disciplined st srs \<Longrightarrow> reachable (fst (serve_all st srs))"
proof (induction srs arbitrary: st)
  case Nil
  then show ?case by simp
next
  case (Cons sr srs)
  from Cons.prems(2)
  have w: "\<forall>keys. fst (snd sr) = WAIT keys \<longrightarrow> occurrences (fst sr) (waitingSockets st) = 0"
    and x: "waiters_writable (snd (snd sr)) st"
    and d: "disciplined (fst (serve (fst sr) (fst (snd sr)) (snd (snd sr)) st)) srs"
    by (auto split: request.splits)
  from reachable.request [OF Cons.prems(1) w x]
  have "reachable (fst (serve (fst sr) (fst (snd sr)) (snd (snd sr)) st))" .
  from Cons.IH [OF this d] show ?case by (simp add: Let_def)
qed

lemma reachable_queryFds_from:
  assumes "reachable st" and "disciplined st (ready_requests rq wr i fds)"
  shows "reachable (fst (snd (queryFds_from rq wr i fds st)))"
  using same_overlays_reachable [OF queryFds_from_serve_all [THEN conjunct2]
      reachable_serve_all [OF assms]] .

lemma ready_requests_addPollfd:
  "i \<le> length fds \<Longrightarrow> ready_requests rq wr i (addPollfd fds s evs) = ready_requests rq wr i fds"
  by (simp add: ready_requests_def addPollfd_def)

lemma reachable_run_body:
  assumes "reachable st" and "2 \<le> length fds"
    and "disciplined st
           (ready_requests (incoming inp) (writable inp) CONNECT_SOCKET_OFFSET (poll (ready inp) fds))"
    and "run_body inp fds st = Inr r"
  shows "reachable (fst (snd (snd r)))"
proof -
  let ?fds1 = "poll (ready inp) fds"
  let ?rs = "ready_requests (incoming inp) (writable inp) CONNECT_SOCKET_OFFSET ?fds1"
  let ?st2 = "st\<lparr>sockets := sockets st @ [accepted inp]\<rparr>"
  have l: "CONNECT_SOCKET_OFFSET \<le> length ?fds1"
    using assms(2) by (simp add: CONNECT_SOCKET_OFFSET_def)
  have r2: "reachable ?st2"
    using assms(1) by (rule reachable.connection)
  have d2: "disciplined ?st2 ?rs"
    using same_overlays_disciplined [of ?st2 st ?rs] assms(3) by simp
  have q1: "reachable (fst (snd (queryFds (incoming inp) (writable inp) ?fds1 st)))"
    unfolding queryFds_def using assms(1,3) by (rule reachable_queryFds_from)
  have q2: "reachable (fst (snd (queryFds (incoming inp) (writable inp)
               (addPollfd ?fds1 (accepted inp) POLLIN) ?st2)))"
    unfolding queryFds_def
    using r2 d2 by (intro reachable_queryFds_from) (simp_all add: ready_requests_addPollfd [OF l])
  from assms(4) assms(1) r2 q1 q2 show ?thesis
    by (auto simp: run_body_def Let_def split: if_splits)
qed

subsection \<open>Watch notifications\<close>

lemma received_append [simp]: "received s (xs @ ys) = received s xs @ received s ys"
  by (induction xs rule: received.induct) simp_all

lemma received_as_events:
  "received w (as_events xs) = map snd (filter (\<lambda>tw. fst tw = w) xs)"
  by (induction xs) (simp_all add: as_events_def)

lemma pushed_Nil [simp]: "pushed w [] = []"
  by (simp add: pushed_def)

lemma pushed_append [simp]: "pushed w (xs @ ys) = pushed w xs @ pushed w ys"
  by (simp add: pushed_def)

lemma pushed_Cons:
  "pushed w (n # ns) =
     (if fst n = w then map snd (frame (fst (snd n)) (fst (snd (snd n))) (snd (snd (snd n))) w)
      else []) @ pushed w ns"
  by (simp add: pushed_def)

lemma received_frames:
  "received w (as_events (frames k old new ws)) = pushed w (spec_notify k old new (x, \<lambda>j. ws))"
proof (induction ws)
  case Nil
  then show ?case by (simp add: frames_def as_events_def spec_notify_def)
next
  case (Cons a ws)
  have "frames k old new (a # ws) = frame k old new a @ frames k old new ws"
    by (simp add: frames_def)
  moreover have "received w (as_events (frame k old new a))
      = (if a = w then map snd (frame k old new w) else [])"
    by (simp add: frame_def as_events_def)
  moreover have "as_events (xs @ ys) = as_events xs @ as_events ys" for xs ys
    by (simp add: as_events_def)
  ultimately show ?case
    using Cons.IH by (simp add: spec_notify_def pushed_Cons)
qed

lemma listen_Nil [simp]: "listen cbs [] = ([], None)"
  by (simp add: listen.simps)

lemma listen_frame:
  "k \<in> cbs \<Longrightarrow>
   listen cbs (map snd (frame k old new w) @ rest)
     = ((k, old, new) # fst (listen cbs rest), snd (listen cbs rest))"
  by (subst listen.simps) (simp add: frame_def Let_def)

lemma listen_pushed:
  "\<forall>n \<in> set ns. fst n = w \<longrightarrow> fst (snd n) \<in> cbs \<Longrightarrow>
   listen cbs (pushed w ns) = (map snd (filter (\<lambda>n. fst n = w) ns), None)"
proof (induction ns)
  case Nil
  then show ?case by simp
next
  case (Cons n ns)
  then have ih: "listen cbs (pushed w ns) = (map snd (filter (\<lambda>n. fst n = w) ns), None)"
    by simp
  show ?case
  proof (cases "fst n = w")
    case False
    with ih show ?thesis by (simp add: pushed_Cons)
  next
    case True
    with Cons.prems have "fst (snd n) \<in> cbs" by simp
    from listen_frame [OF this, of "fst (snd (snd n))" "snd (snd (snd n))" w "pushed w ns"] ih True
    show ?thesis
      by (simp add: pushed_Cons)
  qed
qed

text \<open>The wake-up loop writes STOP_WAITING to sockets of the key's waiting list only.\<close>

lemma written_wakeup_loop:
  "set (written (wakeup_loop l io st)) \<subseteq> (\<lambda>t. Send t (WaitResponse STOP_WAITING)) ` set l"
proof (induction l arbitrary: io st)
  case Nil
  then show ?case by simp
next
  case (Cons x l)
  show ?case
    unfolding wakeup_loop_Cons
    using Cons.IH by (auto simp: and_then_fields written_send split: if_splits)
qed

lemma written_wakeup:
  "set (written (wakeupWaitingClients k io st))
     \<subseteq> (\<lambda>t. Send t (WaitResponse STOP_WAITING)) ` set (bucket (waitingSockets st) k)"
  using written_wakeup_loop [of "bucket (waitingSockets st) k" io st]
  by (simp add: wakeup_normal and_then_fields)

lemma received_none: "\<forall>e \<in> set ev. target e \<noteq> w \<Longrightarrow> received w ev = []"
  by (induction ev rule: received.induct) simp_all

lemma received_wakeup:
  assumes "w \<notin> set (bucket (waitingSockets st) k)"
  shows "received w (written (wakeupWaitingClients k io st)) = []"
proof (rule received_none)
  from written_wakeup [of k io st] assms
  show "\<forall>e \<in> set (written (wakeupWaitingClients k io st)). target e \<noteq> w"
    by auto
qed

text \<open>The watcher lists across a request.\<close>

lemma watchers_sendKeyUpdates [simp]:
  "bucket (watchedSockets (state (sendKeyUpdatesToClients k old new io st))) k'
     = bucket (watchedSockets st) k'"
  by (simp add: state_sendKeyUpdates)

lemma watchers_setHandler:
  "bucket (watchedSockets (state (setHandler t k v io st))) k' = bucket (watchedSockets st) k'"
  by (simp add: setHandler_def Let_def and_then_fields)

lemma watchers_addStore:
  "bucket (watchedSockets (state (addStore t k n old io st))) k' = bucket (watchedSockets st) k'"
  by (simp add: addStore_def Let_def and_then_fields)

lemma watchers_compareSetHandler:
  "bucket (watchedSockets (state (compareSetHandler t k e d io st))) k'
     = bucket (watchedSockets st) k'"
  by (simp add: compareSetHandler_def and_then_fields split: option.splits)

lemma watchers_query:
  "bucket (watchedSockets (state (query t req io st))) k'
     = (if req = WATCH_KEY k' then bucket (watchedSockets st) k' @ [t]
        else if req = DELETE_KEY k' \<and> io t \<noteq> 0 then []
        else bucket (watchedSockets st) k')"
proof (cases req)
  case (SET k v)
  then show ?thesis by (simp add: watchers_setHandler)
next
  case (COMPARE_SET k e d)
  then show ?thesis by (simp add: watchers_compareSetHandler)
next
  case (ADD k a)
  then show ?thesis
    by (simp add: addHandler_def watchers_addStore split: option.splits sum.splits)
next
  case (GET k)
  then show ?thesis by (simp add: getHandler_def split: option.splits)
next
  case (CHECK ks)
  then show ?thesis by (simp add: checkHandler_def)
next
  case (WAIT ks)
  then show ?thesis by (simp add: state_waitHandler)
next
  case GETNUMKEYS
  then show ?thesis by (simp add: getNumKeysHandler_def)
next
  case (WATCH_KEY k)
  then show ?thesis by (simp add: watchHandler_def)
next
  case (DELETE_KEY k)
  then show ?thesis by (simp add: deleteHandler_def Let_def and_then_fields raised_send)
next
  case BAD_QUERY_TYPE
  then show ?thesis by simp
next
  case RECV_FAILED
  then show ?thesis by simp
qed

lemma watchers_serve:
  "bucket (watchedSockets (fst (serve t req io st))) k'
     = (if raised (query t req io st) = None
        then bucket (watchedSockets (state (query t req io st))) k'
        else filter (\<lambda>x. x \<noteq> t) (bucket (watchedSockets (state (query t req io st))) k'))"
  by (simp add: serve_def Let_def scrub_def split: option.splits)

text \<open>What the mutating handlers write.\<close>

lemma written_sendKeyUpdates:
  "written (sendKeyUpdatesToClients k old new io st)
     = as_events (sent io (frames k old new (bucket (watchedSockets st) k)))"
  by (simp add: sendKeyUpdates_sends sends_fields)

lemma raised_sendKeyUpdates:
  "raised (sendKeyUpdatesToClients k old new io st)
     = (if sent io (frames k old new (bucket (watchedSockets st) k))
            = frames k old new (bucket (watchedSockets st) k)
        then None else Some system_error)"
  by (simp add: sendKeyUpdates_sends sends_fields)

lemma written_setHandler:
  "written (setHandler s k v io st)
     = written (wakeupWaitingClients k io (st\<lparr>tcpStore := (tcpStore st)(k \<mapsto> v)\<rparr>))
       @ (if raised (wakeupWaitingClients k io (st\<lparr>tcpStore := (tcpStore st)(k \<mapsto> v)\<rparr>)) = None
          then as_events
                 (sent (budget (wakeupWaitingClients k io (st\<lparr>tcpStore := (tcpStore st)(k \<mapsto> v)\<rparr>)))
                    (frames k (bucket (tcpStore st) k) v (bucket (watchedSockets st) k)))
          else [])"
  by (simp add: setHandler_def Let_def and_then_fields written_sendKeyUpdates bucket_def)

lemma written_addStore:
  "written (addStore s k n old io st)
     = as_events (sent io [(s, WInt64 n)])
       @ (if io s = 0 then []
          else written (wakeupWaitingClients k (io(s := io s - 1))
                          (st\<lparr>tcpStore := (tcpStore st)(k \<mapsto> to_string n)\<rparr>))
               @ (if raised (wakeupWaitingClients k (io(s := io s - 1))
                               (st\<lparr>tcpStore := (tcpStore st)(k \<mapsto> to_string n)\<rparr>)) = None
                  then as_events
                         (sent (budget (wakeupWaitingClients k (io(s := io s - 1))
                                          (st\<lparr>tcpStore := (tcpStore st)(k \<mapsto> to_string n)\<rparr>)))
                            (frames k old (to_string n) (bucket (watchedSockets st) k)))
                  else []))"
  by (simp add: addStore_def Let_def and_then_fields written_sendKeyUpdates raised_send
      written_send budget_send as_events_def del: fun_upd_apply)

lemma written_compareSetHandler:
  "written (compareSetHandler s k e d io st)
     = (if tcpStore st k = Some e
        then as_events (sent io (frames k e d (bucket (watchedSockets st) k) @ [(s, WVector d)]))
        else as_events (sent io [(s, WVector (case tcpStore st k of None \<Rightarrow> e | Some v \<Rightarrow> v))]))"
proof (cases "tcpStore st k = Some e")
  case True
  then show ?thesis
    by (simp add: compareSet_match sends_fields)
next
  case False
  then show ?thesis
    by (simp add: compareSetHandler_def written_send as_events_def split: option.splits)
qed

lemma written_deleteHandler:
  "written (deleteHandler s k io st)
     = as_events (sent io [(s, WInt64 (if tcpStore st k = None then 0 else 1))])"
  by (simp add: deleteHandler_def Let_def and_then_fields written_send as_events_def)

text \<open>
  What a socket that neither waits nor is the caller reads of a request whose handler
  returns: the notifications the spec pushes to it.
\<close>

lemma received_pushes:
  "received w (as_events (frames k old new ws)) = pushed w (map (\<lambda>x. (x, k, old, new)) ws)"
  using received_frames [of w k old new ws undefined] by (simp add: spec_notify_def)

lemma received_sent_other:
  assumes "\<forall>tw \<in> set xs. fst tw \<noteq> w"
  shows "received w (as_events (sent io xs)) = []"
proof (rule received_none)
  from set_sent [of io xs] assms
  show "\<forall>e \<in> set (as_events (sent io xs)). target e \<noteq> w"
    by (auto simp: as_events_def)
qed

lemma pushed_other: "\<forall>n \<in> set ns. fst n \<noteq> w \<Longrightarrow> pushed w ns = []"
  by (induction ns) (simp_all add: pushed_Cons)

lemma waiting_wakeup:
  "set (bucket (waitingSockets (state (wakeupWaitingClients k io st))) k')
     \<subseteq> set (bucket (waitingSockets st) k')"
  by (simp add: wakeup_normal and_then_fields)

lemma delivery_setHandler:
  assumes "raised (setHandler s k v io st) = None"
    and "w \<notin> set (bucket (waitingSockets st) k)"
  shows "received w (written (setHandler s k v io st))
           = pushed w (map (\<lambda>x. (x, k, bucket (tcpStore st) k, v)) (bucket (watchedSockets st) k))"
proof -
  let ?st1 = "st\<lparr>tcpStore := (tcpStore st)(k \<mapsto> v)\<rparr>"
  let ?wk = "wakeupWaitingClients k io ?st1"
  let ?fr = "frames k (bucket (tcpStore st) k) v (bucket (watchedSockets st) k)"
  have a: "raised ?wk = None"
    using assms(1) by (cases "raised ?wk") (simp_all add: setHandler_def Let_def and_then_fields)
  from assms(1) a have b: "sent (budget ?wk) ?fr = ?fr"
    by (simp add: setHandler_def Let_def and_then_fields raised_sendKeyUpdates bucket_def
        split: if_splits)
  have c: "received w (written ?wk) = []"
    by (rule received_wakeup) (simp add: assms(2))
  from a b c show ?thesis
    by (simp add: written_setHandler received_pushes)
qed

lemma delivery_addStore:
  assumes "raised (addStore s k n old io st) = None"
    and "w \<notin> set (bucket (waitingSockets st) k)" and "s \<noteq> w"
  shows "received w (written (addStore s k n old io st))
           = pushed w (map (\<lambda>x. (x, k, old, to_string n)) (bucket (watchedSockets st) k))"
proof -
  let ?st1 = "st\<lparr>tcpStore := (tcpStore st)(k \<mapsto> to_string n)\<rparr>"
  let ?wk = "wakeupWaitingClients k (io(s := io s - 1)) ?st1"
  let ?fr = "frames k old (to_string n) (bucket (watchedSockets st) k)"
  have z: "io s \<noteq> 0"
    using assms(1) by (cases "io s = 0") (simp_all add: addStore_def Let_def send_refused)
  have a: "raised ?wk = None"
    using assms(1) z
    by (cases "raised ?wk")
       (simp_all add: addStore_def Let_def and_then_fields raised_send budget_send
          del: fun_upd_apply)
  from assms(1) a z have b: "sent (budget ?wk) ?fr = ?fr"
    by (simp add: addStore_def Let_def and_then_fields raised_sendKeyUpdates raised_send
        budget_send split: if_splits del: fun_upd_apply)
  have c: "received w (written ?wk) = []"
    by (rule received_wakeup) (simp add: assms(2))
  have d: "received w (as_events (sent io [(s, WInt64 n)])) = []"
    by (rule received_sent_other) (simp add: assms(3))
  from a b c d z show ?thesis
    by (simp add: written_addStore received_pushes del: fun_upd_apply sent.simps)
qed

lemma raised_compareSetHandler:
  "tcpStore st k = Some e \<Longrightarrow>
   raised (compareSetHandler s k e d io st)
     = (if sent io (frames k e d (bucket (watchedSockets st) k) @ [(s, WVector d)])
            = frames k e d (bucket (watchedSockets st) k) @ [(s, WVector d)]
        then None else Some system_error)"
  by (simp add: compareSet_match sends_fields)

lemma delivery_compareSetHandler:
  assumes "raised (compareSetHandler s k e d io st) = None" and "s \<noteq> w"
  shows "received w (written (compareSetHandler s k e d io st))
           = pushed w (if tcpStore st k = Some e
                       then map (\<lambda>x. (x, k, e, d)) (bucket (watchedSockets st) k) else [])"
proof (cases "tcpStore st k = Some e")
  case True
  let ?fr = "frames k e d (bucket (watchedSockets st) k)"
  from assms(1) True have "sent io (?fr @ [(s, WVector d)]) = ?fr @ [(s, WVector d)]"
    by (simp add: raised_compareSetHandler split: if_splits)
  moreover have "as_events (xs @ ys) = as_events xs @ as_events ys" for xs ys
    by (simp add: as_events_def)
  moreover have "received w (as_events [(s, WVector d)]) = []"
    using assms(2) by (simp add: as_events_def)
  ultimately show ?thesis
    using True by (simp add: written_compareSetHandler received_pushes)
next
  case False
  have "received w (as_events (sent io [(s, WVector (case tcpStore st k of None \<Rightarrow> e | Some v \<Rightarrow> v))]))
          = []"
    by (rule received_sent_other) (simp add: assms(2))
  with False show ?thesis
    by (simp add: written_compareSetHandler del: sent.simps)
qed

lemma tcpStore_compareSetHandler:
  "tcpStore (state (compareSetHandler s k e d io st))
     = (if tcpStore st k = Some e then (tcpStore st)(k \<mapsto> d) else tcpStore st)"
  by (simp add: compareSetHandler_def and_then_fields state_sendKeyUpdates split: option.splits)

lemma delivery_step:
  assumes r: "raised (query s req io st) = None"
    and l: "s = w \<longrightarrow> (\<exists>k. req = WATCH_KEY k)"
    and n: "\<forall>k. w \<notin> set (bucket (waitingSockets st) k)"
  shows "received w (written (query s req io st)) = pushed w (spec_pushes req (spec_view st))"
proof (cases req)
  case (SET k v)
  with r have "raised (setHandler s k v io st) = None" by simp
  from delivery_setHandler [OF this n [rule_format, of k]] SET show ?thesis
    by (simp add: spec_view_def spec_notify_def bucket_def)
next
  case (COMPARE_SET k e d)
  with r have a: "raised (compareSetHandler s k e d io st) = None" by simp
  from l COMPARE_SET have "s \<noteq> w" by auto
  from delivery_compareSetHandler [OF a this] COMPARE_SET show ?thesis
    by (simp add: spec_view_def spec_notify_def)
next
  case (ADD k a)
  from l ADD have o: "s \<noteq> w" by auto
  show ?thesis
  proof (cases "tcpStore st k")
    case None
    with r ADD have "raised (addStore s k a [] io st) = None"
      by (simp add: addHandler_def)
    from delivery_addStore [OF this n [rule_format, of k] o] ADD None show ?thesis
      by (simp add: addHandler_def spec_view_def spec_notify_def)
  next
    case (Some v)
    show ?thesis
    proof (cases "stoll v")
      case (Inl e)
      with r ADD Some show ?thesis by (simp add: addHandler_def)
    next
      case (Inr m)
      with r ADD Some have "raised (addStore s k (a + m) v io st) = None"
        by (simp add: addHandler_def)
      from delivery_addStore [OF this n [rule_format, of k] o] ADD Some Inr show ?thesis
        by (simp add: addHandler_def spec_view_def spec_notify_def)
    qed
  qed
next
  case (GET k)
  from l GET have "s \<noteq> w" by auto
  with GET show ?thesis
    by (simp add: getHandler_def written_send split: option.splits)
next
  case (CHECK ks)
  from l CHECK have "s \<noteq> w" by auto
  with CHECK show ?thesis
    by (simp add: checkHandler_def written_send)
next
  case (WAIT ks)
  from l WAIT have "s \<noteq> w" by auto
  with WAIT show ?thesis
    by (simp add: waitHandler_def written_send Let_def)
next
  case GETNUMKEYS
  from l GETNUMKEYS have "s \<noteq> w" by auto
  with GETNUMKEYS show ?thesis
    by (simp add: getNumKeysHandler_def written_send)
next
  case (WATCH_KEY k)
  then show ?thesis by (simp add: watchHandler_def)
next
  case (DELETE_KEY k)
  from l DELETE_KEY have "s \<noteq> w" by auto
  with DELETE_KEY show ?thesis
    by (simp add: deleteHandler_def Let_def and_then_fields written_send)
next
  case BAD_QUERY_TYPE
  with r show ?thesis by simp
next
  case RECV_FAILED
  with r show ?thesis by simp
qed

lemma spec_view_step:
  assumes "raised (query s req io st) = None"
  shows "spec_view (state (query s req io st)) = spec_step s req (spec_view st)"
proof -
  have w: "snd (spec_view (state (query s req io st)))
             = (\<lambda>k'. if req = WATCH_KEY k' then bucket (watchedSockets st) k' @ [s]
                      else if req = DELETE_KEY k' \<and> io s \<noteq> 0 then []
                      else bucket (watchedSockets st) k')"
    by (simp add: spec_view_def watchers_query)
  show ?thesis
  proof (cases req)
    case (SET k v)
    with w show ?thesis
      by (simp add: spec_view_def prod_eq_iff)
  next
    case (COMPARE_SET k e d)
    with w show ?thesis
      by (simp add: spec_view_def prod_eq_iff tcpStore_compareSetHandler)
  next
    case (ADD k a)
    with w assms show ?thesis
      by (simp add: spec_view_def prod_eq_iff addHandler_def split: option.splits sum.splits)
  next
    case (GET k)
    with w show ?thesis
      by (simp add: spec_view_def prod_eq_iff getHandler_def split: option.splits)
  next
    case (CHECK ks)
    with w show ?thesis
      by (simp add: spec_view_def prod_eq_iff checkHandler_def)
  next
    case (WAIT ks)
    with w show ?thesis
      by (simp add: spec_view_def prod_eq_iff state_waitHandler)
  next
    case GETNUMKEYS
    with w show ?thesis
      by (simp add: spec_view_def prod_eq_iff getNumKeysHandler_def)
  next
    case (WATCH_KEY k)
    with w show ?thesis
      by (auto simp: spec_view_def prod_eq_iff watchHandler_def fun_eq_iff)
  next
    case (DELETE_KEY k)
    with assms have "io s \<noteq> 0"
      by (cases "io s = 0") (simp_all add: deleteHandler_def Let_def send_refused)
    with w DELETE_KEY show ?thesis
      by (auto simp: spec_view_def prod_eq_iff deleteHandler_def Let_def and_then_fields
          raised_send fun_eq_iff)
  next
    case BAD_QUERY_TYPE
    with assms show ?thesis by simp
  next
    case RECV_FAILED
    with assms show ?thesis by simp
  qed
qed

lemma waiting_query:
  assumes "w \<notin> set (bucket (waitingSockets st) k')"
    and "s = w \<longrightarrow> (\<forall>keys. req \<noteq> WAIT keys)"
  shows "w \<notin> set (bucket (waitingSockets (state (query s req io st))) k')"
proof (cases req)
  case (SET k v)
  let ?st1 = "st\<lparr>tcpStore := (tcpStore st)(k \<mapsto> v)\<rparr>"
  from waiting_wakeup [of k io ?st1 k'] assms(1)
  have "w \<notin> set (bucket (waitingSockets (state (wakeupWaitingClients k io ?st1))) k')"
    by auto
  with SET show ?thesis
    by (simp add: setHandler_def Let_def and_then_fields)
next
  case (ADD k a)
  have x: "w \<notin> set (bucket (waitingSockets (state (addStore s k n old io st))) k')" for n old
  proof -
    let ?st1 = "st\<lparr>tcpStore := (tcpStore st)(k \<mapsto> to_string n)\<rparr>"
    from waiting_wakeup [of k "budget (send s (WInt64 n) io ?st1)" ?st1 k'] assms(1)
    have "w \<notin> set (bucket (waitingSockets (state (wakeupWaitingClients k
              (budget (send s (WInt64 n) io ?st1)) ?st1))) k')"
      by auto
    with assms(1) show ?thesis
      by (simp add: addStore_def Let_def and_then_fields)
  qed
  with ADD assms(1) show ?thesis
    by (simp add: addHandler_def split: option.splits sum.splits)
next
  case (COMPARE_SET k e d)
  with assms(1) show ?thesis
    by (simp add: compareSetHandler_def and_then_fields state_sendKeyUpdates split: option.splits)
next
  case (GET k)
  with assms(1) show ?thesis by (simp add: getHandler_def split: option.splits)
next
  case (CHECK ks)
  with assms(1) show ?thesis by (simp add: checkHandler_def)
next
  case (WAIT ks)
  with assms(2) have "s \<noteq> w" by auto
  with WAIT assms(1) show ?thesis
    by (simp add: state_waitHandler wait_loop_bucket)
next
  case GETNUMKEYS
  with assms(1) show ?thesis by (simp add: getNumKeysHandler_def)
next
  case (WATCH_KEY k)
  with assms(1) show ?thesis by (simp add: watchHandler_def)
next
  case (DELETE_KEY k)
  with assms(1) show ?thesis by (simp add: deleteHandler_def Let_def and_then_fields)
next
  case BAD_QUERY_TYPE
  with assms(1) show ?thesis by simp
next
  case RECV_FAILED
  with assms(1) show ?thesis by simp
qed

lemma delivery_run:
  "smooth st srs \<Longrightarrow> watch_requests w cbs srs \<Longrightarrow>
   \<forall>k. w \<notin> set (bucket (waitingSockets st) k) \<Longrightarrow>
   received w (snd (serve_all st srs)) = pushed w (spec_delivery (spec_view st) srs)"
proof (induction srs arbitrary: st)
  case Nil
  then show ?case by simp
next
  case (Cons sr srs)
  let ?s = "fst sr" and ?req = "fst (snd sr)" and ?io = "snd (snd sr)"
  let ?r = "query ?s ?req ?io st"
  from Cons.prems(1) have r: "raised ?r = None" and sm: "smooth (state ?r) srs"
    by simp_all
  from Cons.prems(2) have l: "?s = w \<longrightarrow> (\<exists>k. ?req = WATCH_KEY k)"
    and wr: "watch_requests w cbs srs"
    by (auto simp: watch_requests_def)
  from l have nw: "?s = w \<longrightarrow> (\<forall>keys. ?req \<noteq> WAIT keys)"
    by auto
  have n: "\<forall>k. w \<notin> set (bucket (waitingSockets (state ?r)) k)"
    using waiting_query [OF Cons.prems(3) [rule_format] nw] by blast
  note ih = Cons.IH [OF sm wr n]
  note 1 = delivery_step [OF r l Cons.prems(3)]
  note 2 = spec_view_step [OF r]
  from ih 1 2 show ?case
    by (simp add: serve_returned [OF r] Let_def)
qed

lemma spec_pushes_from:
  "n \<in> set (spec_pushes req sp) \<Longrightarrow> fst n \<in> set (snd sp (fst (snd n)))"
  by (cases req) (auto simp: spec_notify_def split: option.splits sum.splits if_splits)

lemma spec_step_subscribers:
  "w \<in> set (snd (spec_step s req sp) k) \<Longrightarrow>
   w \<in> set (snd sp k) \<or> (w = s \<and> req = WATCH_KEY k)"
  by (cases req) (auto split: option.splits sum.splits if_splits)

lemma spec_delivery_keys:
  "watch_requests w cbs srs \<Longrightarrow> \<forall>k. w \<in> set (snd sp k) \<longrightarrow> k \<in> cbs \<Longrightarrow>
   \<forall>n \<in> set (spec_delivery sp srs). fst n = w \<longrightarrow> fst (snd n) \<in> cbs"
proof (induction srs arbitrary: sp)
  case Nil
  then show ?case by simp
next
  case (Cons sr srs)
  from Cons.prems(1) have l: "fst sr = w \<longrightarrow> (\<exists>k \<in> cbs. fst (snd sr) = WATCH_KEY k)"
    and wr: "watch_requests w cbs srs"
    by (simp_all add: watch_requests_def)
  have i: "\<forall>k. w \<in> set (snd (spec_step (fst sr) (fst (snd sr)) sp) k) \<longrightarrow> k \<in> cbs"
  proof (intro allI impI)
    fix k
    assume "w \<in> set (snd (spec_step (fst sr) (fst (snd sr)) sp) k)"
    from spec_step_subscribers [OF this] Cons.prems(2) l show "k \<in> cbs"
      by auto
  qed
  note ih = Cons.IH [OF wr i]
  have "\<forall>n \<in> set (spec_pushes (fst (snd sr)) sp). fst n = w \<longrightarrow> fst (snd n) \<in> cbs"
    using spec_pushes_from [of _ "fst (snd sr)" sp] Cons.prems(2) by blast
  with ih show ?case by auto
qed

lemma delivery_listen:
  assumes "smooth st srs" and "watch_requests w cbs srs"
    and "\<forall>k. w \<notin> set (bucket (waitingSockets st) k)"
    and "\<forall>k. w \<in> set (bucket (watchedSockets st) k) \<longrightarrow> k \<in> cbs"
  shows "listen cbs (received w (snd (serve_all st srs)))
           = (map snd (filter (\<lambda>n. fst n = w) (spec_delivery (spec_view st) srs)), None)"
proof -
  have "\<forall>k. w \<in> set (snd (spec_view st) k) \<longrightarrow> k \<in> cbs"
    using assms(4) by (simp add: spec_view_def)
  from listen_pushed [OF spec_delivery_keys [OF assms(2) this]]
    delivery_run [OF assms(1,2,3)]
  show ?thesis by simp
qed

lemma sent_reliable: "sent reliable xs = xs"
  by (rule sent_all) simp

lemma frames_Cons: "frames k old new (a # ws) = frame k old new a @ frames k old new ws"
  by (simp add: frames_def)

lemma take_frames:
  "take n (frames k old new ws)
     = frames k old new (take (n div 4) ws)
       @ take (n mod 4) (frames k old new (drop (n div 4) ws))"
proof (induction ws arbitrary: n)
  case Nil
  then show ?case by (simp add: frames_def)
next
  case (Cons a ws)
  show ?case
  proof (cases "n < 4")
    case True
    then show ?thesis by (simp add: frames_def)
  next
    case False
    then obtain m where m: "n = m + 4"
      using le_Suc_ex [of 4 n] by (auto simp: add.commute)
    have l: "length (frame k old new a) = 4"
      by (simp add: frame_def)
    have d: "(m + 4) div 4 = Suc (m div 4)" "(m + 4) mod 4 = m mod 4"
      by simp_all
    from Cons.IH [of m] show ?thesis
      unfolding m d by (simp add: frames_Cons l)
  qed
qed

lemma sent_frames:
  "sent io (frames k old new ws)
     = frames k old new (take (length (sent io (frames k old new ws)) div 4) ws)
       @ take (length (sent io (frames k old new ws)) mod 4)
           (frames k old new (drop (length (sent io (frames k old new ws)) div 4) ws))"
  using sent_take [of io "frames k old new ws"]
    take_frames [of "length (sent io (frames k old new ws))" k old new ws]
  by simp

lemma written_addHandler:
  "written (addHandler s k a io st)
     = (case tcpStore st k of
          None \<Rightarrow> written (addStore s k a [] io st)
        | Some old \<Rightarrow>
            (case stoll old of
               Inl e \<Rightarrow> []
             | Inr m \<Rightarrow> written (addStore s k (a + m) old io st)))"
  by (simp add: addHandler_def split: option.splits sum.splits)

lemma wdA:
  "serve_all init_daemon
     [(5, WATCH_KEY ''/k'', reliable), (7, WATCH_KEY ''/k'', reliable),
      (6, SET ''/k'' [1], reliable(5 := 1))]
   = (\<lparr>tcpStore = [''/k'' \<mapsto> [1]], waitingSockets = Map.empty, keysAwaited = Map.empty,
        watchedSockets = [''/k'' \<mapsto> [5, 7]], sockets = []\<rparr>,
      [Send 5 (WatchResponse KEY_UPDATED), Close 6])"
  by (simp add: run_defs scrub_def removeSocket_def fun_eq_iff one_enat_def zero_enat_def)

lemma wdB:
  "serve_all init_daemon
     [(7, WATCH_KEY ''/k'', reliable), (5, WAIT [''/k''], reliable),
      (6, SET ''/k'' [1], reliable(5 := 0))]
   = (\<lparr>tcpStore = [''/k'' \<mapsto> [1]], waitingSockets = [''/k'' \<mapsto> [5]],
        keysAwaited = [5 \<mapsto> 0], watchedSockets = [''/k'' \<mapsto> [7]], sockets = []\<rparr>,
      [Close 6])"
  by (simp add: run_defs scrub_def removeSocket_def fun_eq_iff)

lemma wdC:
  "serve_all init_daemon
     [(7, WATCH_KEY ''/k'', reliable), (6, SET ''/k'' [120], reliable),
      (6, ADD ''/k'' 1, reliable)]
   = (\<lparr>tcpStore = [''/k'' \<mapsto> [120]], waitingSockets = Map.empty, keysAwaited = Map.empty,
        watchedSockets = [''/k'' \<mapsto> [7]], sockets = []\<rparr>,
      [Send 7 (WatchResponse KEY_UPDATED), Send 7 (WString ''/k''), Send 7 (WVector []),
       Send 7 (WVector [120]), Close 6])"
  by (simp add: run_defs scrub_def removeSocket_def fun_eq_iff stoll_def isspace_def isdigit_def)

text \<open>
  C2, as the spec states it, does not hold when a write raises. Sockets 5 and 7 watch a
  key, in this order, and socket 5 accepts one more write. A SET of the key from socket 6
  stores the value and writes the tag of the notification to socket 5; the next write
  raises, the loop of \<open>sendKeyUpdatesToClients\<close> is left, socket 7 gets nothing
  although it is still subscribed, socket 5 has received no whole notification, and the
  dispatch loop closes socket 6. Likewise a SET whose wake-up write raises stores the
  value and notifies no watcher: socket 5 waits for the key and no longer accepts
  writes, socket 7 watches it. And an ADD on a key whose value is not a decimal
  integer raises before it writes anything: the watcher has the notification of the
  SET only.
\<close>

theorem watch_delivery_counterexample:
  "snd (serve_all init_daemon
         [(5, WATCH_KEY ''/k'', reliable), (7, WATCH_KEY ''/k'', reliable),
          (6, SET ''/k'' [1], reliable(5 := 1))])
     = [Send 5 (WatchResponse KEY_UPDATED), Close 6]
   \<and> tcpStore (fst (serve_all init_daemon
         [(5, WATCH_KEY ''/k'', reliable), (7, WATCH_KEY ''/k'', reliable),
          (6, SET ''/k'' [1], reliable(5 := 1))])) ''/k'' = Some [1]
   \<and> watchedSockets (fst (serve_all init_daemon
         [(5, WATCH_KEY ''/k'', reliable), (7, WATCH_KEY ''/k'', reliable),
          (6, SET ''/k'' [1], reliable(5 := 1))])) ''/k'' = Some [5, 7]
   \<and> received 7 (snd (serve_all init_daemon
         [(5, WATCH_KEY ''/k'', reliable), (7, WATCH_KEY ''/k'', reliable),
          (6, SET ''/k'' [1], reliable(5 := 1))])) = []
   \<and> listen {''/k''} (received 5 (snd (serve_all init_daemon
         [(5, WATCH_KEY ''/k'', reliable), (7, WATCH_KEY ''/k'', reliable),
          (6, SET ''/k'' [1], reliable(5 := 1))]))) = ([], Some system_error)
   \<and> snd (serve_all init_daemon
         [(7, WATCH_KEY ''/k'', reliable), (5, WAIT [''/k''], reliable),
          (6, SET ''/k'' [1], reliable(5 := 0))]) = [Close 6]
   \<and> tcpStore (fst (serve_all init_daemon
         [(7, WATCH_KEY ''/k'', reliable), (5, WAIT [''/k''], reliable),
          (6, SET ''/k'' [1], reliable(5 := 0))])) ''/k'' = Some [1]
   \<and> watchedSockets (fst (serve_all init_daemon
         [(7, WATCH_KEY ''/k'', reliable), (5, WAIT [''/k''], reliable),
          (6, SET ''/k'' [1], reliable(5 := 0))])) ''/k'' = Some [7]
   \<and> snd (serve_all init_daemon
         [(7, WATCH_KEY ''/k'', reliable), (6, SET ''/k'' [120], reliable),
          (6, ADD ''/k'' 1, reliable)])
     = [Send 7 (WatchResponse KEY_UPDATED), Send 7 (WString ''/k''), Send 7 (WVector []),
        Send 7 (WVector [120]), Close 6]"
  unfolding wdA wdB wdC by (simp add: listen.simps)

text \<open>
  C2, amended. \<open>watchHandler\<close> appends the socket to the key's watcher list and writes
  nothing. A watcher list then stays as it is across every request, whatever the
  handler does, but for three changes: a WATCH_KEY on the key appends the caller, a
  DELETE_KEY on the key whose reply is written drops the list, and when the handler
  raises the dispatch loop removes the caller's entries from every list.
  \<open>sendKeyUpdatesToClients\<close> writes the KEY_UPDATED notifications of the key, four
  values each (tag, key, old value, new value), to the entries of the key's list in the
  order of the list, as far as the writes succeed: it writes the part of that sequence
  that comes before the first write that raises, which is all of it exactly if it does
  not raise and is all of it when no write raises; what it writes is one whole
  notification for each of the first entries of the list, then fewer than four values
  of the notification of the next entry, and nothing for the entries after that. The
  wake-up loop writes STOP_WAITING to sockets of the key's waiting list only. SET writes
  the wake-ups and, if they do not raise, the notifications; COMPARE_SET whose expected
  value is the stored one writes the notifications and then the reply, any other
  COMPARE_SET writes the reply only; ADD, when the stored value is a decimal integer or
  the key is absent, writes the reply, then the wake-ups, then the notifications, each
  part only if the parts before it did not raise, and writes nothing when the stored value
  does not parse; DELETE_KEY writes the reply only. The dispatch loop writes, for the
  sockets that have a request pending, what serving these requests one after the other
  in the order of the poll set writes. Finally, over a sequence of requests
  in which no handler raises, a socket that sends nothing but WATCH_KEY requests and has
  no entry in a waiting list reads exactly the notifications the spec promises it (one
  per mutation of a key by SET, matching COMPARE_SET or ADD for each of its entries in
  the key's list at that time, with the key, the old and the new value, in the order of
  the mutations) and nothing else, and the listener thread, reading that stream with
  callbacks registered for the keys the socket watches, calls the callbacks with
  exactly these values in this order and does not raise.
\<close>

theorem watch_delivery:
  "watchHandler w k io st
     = ok io (st\<lparr>watchedSockets := (watchedSockets st)(k \<mapsto> bucket (watchedSockets st) k @ [w])\<rparr>)
   \<and> bucket (watchedSockets (state (query t req io st))) k'
       = (if req = WATCH_KEY k' then bucket (watchedSockets st) k' @ [t]
          else if req = DELETE_KEY k' \<and> io t \<noteq> 0 then []
          else bucket (watchedSockets st) k')
   \<and> bucket (watchedSockets (fst (serve t req io st))) k'
       = (if raised (query t req io st) = None
          then bucket (watchedSockets (state (query t req io st))) k'
          else filter (\<lambda>x. x \<noteq> t) (bucket (watchedSockets (state (query t req io st))) k'))
   \<and> written (sendKeyUpdatesToClients k old new io st)
       = as_events (sent io (frames k old new (bucket (watchedSockets st) k)))
   \<and> raised (sendKeyUpdatesToClients k old new io st)
       = (if sent io (frames k old new (bucket (watchedSockets st) k))
              = frames k old new (bucket (watchedSockets st) k)
          then None else Some system_error)
   \<and> sent io xs = take (length (sent io xs)) xs
   \<and> sent io (frames k old new ws)
       = frames k old new (take (length (sent io (frames k old new ws)) div 4) ws)
         @ take (length (sent io (frames k old new ws)) mod 4)
             (frames k old new (drop (length (sent io (frames k old new ws)) div 4) ws))
   \<and> sent reliable xs = xs
   \<and> set (written (wakeupWaitingClients k io st))
       \<subseteq> (\<lambda>t. Send t (WaitResponse STOP_WAITING)) ` set (bucket (waitingSockets st) k)
   \<and> written (setHandler s k v io st)
       = written (wakeupWaitingClients k io (st\<lparr>tcpStore := (tcpStore st)(k \<mapsto> v)\<rparr>))
         @ (if raised (wakeupWaitingClients k io (st\<lparr>tcpStore := (tcpStore st)(k \<mapsto> v)\<rparr>)) = None
            then as_events
                   (sent (budget (wakeupWaitingClients k io (st\<lparr>tcpStore := (tcpStore st)(k \<mapsto> v)\<rparr>)))
                      (frames k (bucket (tcpStore st) k) v (bucket (watchedSockets st) k)))
            else [])
   \<and> written (compareSetHandler s k e d io st)
       = (if tcpStore st k = Some e
          then as_events (sent io (frames k e d (bucket (watchedSockets st) k) @ [(s, WVector d)]))
          else as_events (sent io [(s, WVector (case tcpStore st k of None \<Rightarrow> e | Some v \<Rightarrow> v))]))
   \<and> written (addHandler s k a io st)
       = (case tcpStore st k of
            None \<Rightarrow> written (addStore s k a [] io st)
          | Some old \<Rightarrow>
              (case stoll old of
                 Inl err \<Rightarrow> []
               | Inr m \<Rightarrow> written (addStore s k (a + m) old io st)))
   \<and> written (addStore s k n old io st)
       = as_events (sent io [(s, WInt64 n)])
         @ (if io s = 0 then []
            else written (wakeupWaitingClients k (io(s := io s - 1))
                            (st\<lparr>tcpStore := (tcpStore st)(k \<mapsto> to_string n)\<rparr>))
                 @ (if raised (wakeupWaitingClients k (io(s := io s - 1))
                                 (st\<lparr>tcpStore := (tcpStore st)(k \<mapsto> to_string n)\<rparr>)) = None
                    then as_events
                           (sent (budget (wakeupWaitingClients k (io(s := io s - 1))
                                            (st\<lparr>tcpStore := (tcpStore st)(k \<mapsto> to_string n)\<rparr>)))
                              (frames k old (to_string n) (bucket (watchedSockets st) k)))
                    else []))
   \<and> written (deleteHandler s k io st)
       = as_events (sent io [(s, WInt64 (if tcpStore st k = None then 0 else 1))])
   \<and> snd (snd (queryFds rq wr fds st))
       = snd (serve_all st (ready_requests rq wr CONNECT_SOCKET_OFFSET fds))
   \<and> (smooth st srs \<and> watch_requests l cbs srs
        \<and> (\<forall>j. l \<notin> set (bucket (waitingSockets st) j)) \<longrightarrow>
        received l (snd (serve_all st srs)) = pushed l (spec_delivery (spec_view st) srs))
   \<and> (smooth st srs \<and> watch_requests l cbs srs
        \<and> (\<forall>j. l \<notin> set (bucket (waitingSockets st) j))
        \<and> (\<forall>j. l \<in> set (bucket (watchedSockets st) j) \<longrightarrow> j \<in> cbs) \<longrightarrow>
        listen cbs (received l (snd (serve_all st srs)))
          = (map snd (filter (\<lambda>n. fst n = l) (spec_delivery (spec_view st) srs)), None))"
proof -
  have 1: "watchHandler w k io st
     = ok io (st\<lparr>watchedSockets := (watchedSockets st)(k \<mapsto> bucket (watchedSockets st) k @ [w])\<rparr>)"
    by (simp add: watchHandler_def)
  have 13: "snd (snd (queryFds rq wr fds st))
       = snd (serve_all st (ready_requests rq wr CONNECT_SOCKET_OFFSET fds))"
    unfolding queryFds_def by (rule queryFds_from_serve_all [THEN conjunct1])
  have 14: "smooth st srs \<and> watch_requests l cbs srs
        \<and> (\<forall>j. l \<notin> set (bucket (waitingSockets st) j)) \<longrightarrow>
        received l (snd (serve_all st srs)) = pushed l (spec_delivery (spec_view st) srs)"
    using delivery_run [of st srs l cbs] by blast
  have 15: "smooth st srs \<and> watch_requests l cbs srs
        \<and> (\<forall>j. l \<notin> set (bucket (waitingSockets st) j))
        \<and> (\<forall>j. l \<in> set (bucket (watchedSockets st) j) \<longrightarrow> j \<in> cbs) \<longrightarrow>
        listen cbs (received l (snd (serve_all st srs)))
          = (map snd (filter (\<lambda>n. fst n = l) (spec_delivery (spec_view st) srs)), None)"
    using delivery_listen [of st srs l cbs] by blast
  from 1 watchers_query [of t req io st k'] watchers_serve [of t req io st k']
    written_sendKeyUpdates [of k old new io st] raised_sendKeyUpdates [of k old new io st]
    sent_take [of io xs] sent_frames [of io k old new ws] sent_reliable [of xs]
    written_wakeup [of k io st]
    written_setHandler [of s k v io st] written_compareSetHandler [of s k e d io st]
    written_addHandler [of s k a io st] written_addStore [of s k n old io st]
    written_deleteHandler [of s k io st] 13 14 15
  show ?thesis
    by (intro conjI)
qed

theorem watch_delivery_witness:
  "smooth init_daemon
     [(7, WATCH_KEY ''/k'', reliable), (3, SET ''/k'' [1], reliable), (3, SET ''/k'' [2], reliable)]
   \<and> watch_requests 7 {''/k''}
     [(7, WATCH_KEY ''/k'', reliable), (3, SET ''/k'' [1], reliable), (3, SET ''/k'' [2], reliable)]
   \<and> (\<forall>j. 7 \<notin> set (bucket (waitingSockets init_daemon) j))
   \<and> (\<forall>j. 7 \<notin> set (bucket (watchedSockets init_daemon) j))
   \<and> received 7 (snd (serve_all init_daemon
        [(7, WATCH_KEY ''/k'', reliable), (3, SET ''/k'' [1], reliable),
         (3, SET ''/k'' [2], reliable)]))
       = [WatchResponse KEY_UPDATED, WString ''/k'', WVector [], WVector [1],
          WatchResponse KEY_UPDATED, WString ''/k'', WVector [1], WVector [2]]
   \<and> listen {''/k''} (received 7 (snd (serve_all init_daemon
        [(7, WATCH_KEY ''/k'', reliable), (3, SET ''/k'' [1], reliable),
         (3, SET ''/k'' [2], reliable)])))
       = ([(''/k'', [], [1]), (''/k'', [1], [2])], None)"
proof -
  let ?srs = "[(7 :: socket, WATCH_KEY ''/k'', reliable), (3, SET ''/k'' [1], reliable),
               (3, SET ''/k'' [2], reliable)]"
  note t = watch_delivery [where st = init_daemon and srs = ?srs and l = 7 and cbs = "{''/k''}"
      and w = 7 and k = "''/k''" and io = reliable and t = 7 and req = RECV_FAILED
      and k' = "''/k''" and old = "[]" and new = "[]" and xs = "[]" and s = 3 and v = "[]"
      and e = "[]" and d = "[]" and a = 0 and n = 0 and ws = "[]"]
  have a: "smooth init_daemon ?srs"
    by (simp add: run_defs)
  have b: "watch_requests 7 {''/k''} ?srs"
    by (simp add: watch_requests_def)
  have c: "\<forall>j. 7 \<notin> set (bucket (waitingSockets init_daemon) j)"
    by (simp add: init_daemon_def bucket_def)
  have d0: "\<forall>j. 7 \<notin> set (bucket (watchedSockets init_daemon) j)"
    by (simp add: init_daemon_def bucket_def)
  then have d: "\<forall>j. 7 \<in> set (bucket (watchedSockets init_daemon) j) \<longrightarrow> j \<in> {''/k''}"
    by simp
  have sp: "spec_delivery (spec_view init_daemon) ?srs
              = [(7, ''/k'', [], [1]), (7, ''/k'', [1], [2])]"
    by (simp add: spec_view_def init_daemon_def bucket_def spec_notify_def)
  have h1: "smooth init_daemon ?srs \<and> watch_requests 7 {''/k''} ?srs
      \<and> (\<forall>j. 7 \<notin> set (bucket (waitingSockets init_daemon) j))"
    using a b c by (intro conjI)
  have h2: "smooth init_daemon ?srs \<and> watch_requests 7 {''/k''} ?srs
      \<and> (\<forall>j. 7 \<notin> set (bucket (waitingSockets init_daemon) j))
      \<and> (\<forall>j. 7 \<in> set (bucket (watchedSockets init_daemon) j) \<longrightarrow> j \<in> {''/k''})"
    using a b c d by (intro conjI)
  have 1: "received 7 (snd (serve_all init_daemon ?srs))
       = [WatchResponse KEY_UPDATED, WString ''/k'', WVector [], WVector [1],
          WatchResponse KEY_UPDATED, WString ''/k'', WVector [1], WVector [2]]"
    unfolding t [THEN conjunct2, THEN conjunct2, THEN conjunct2, THEN conjunct2, THEN conjunct2,
        THEN conjunct2, THEN conjunct2, THEN conjunct2, THEN conjunct2, THEN conjunct2,
        THEN conjunct2, THEN conjunct2, THEN conjunct2, THEN conjunct2, THEN conjunct2,
        THEN conjunct1, rule_format, OF h1] sp
    by (simp add: pushed_def frame_def)
  have 2: "listen {''/k''} (received 7 (snd (serve_all init_daemon ?srs)))
       = ([(''/k'', [], [1]), (''/k'', [1], [2])], None)"
    unfolding t [THEN conjunct2, THEN conjunct2, THEN conjunct2, THEN conjunct2, THEN conjunct2,
        THEN conjunct2, THEN conjunct2, THEN conjunct2, THEN conjunct2, THEN conjunct2,
        THEN conjunct2, THEN conjunct2, THEN conjunct2, THEN conjunct2, THEN conjunct2,
        THEN conjunct2, rule_format, OF h2] sp
    by simp
  from a b c d0 1 2 show ?thesis
    by (intro conjI)
qed

end
